theory Spec2Isabelle
  imports Main "HOL-Library.AList" "HOL-Library.Char_ord" "HOL-Library.List_Lexorder"
    "HOL-Library.Product_Lexorder"
begin

section \<open>Tasks, values and devices\<close>

text \<open>
  The exceptions that leave \<^verbatim>\<open>Executor\<close>: \<^verbatim>\<open>networkx.NetworkXUnfeasible\<close> (the graph has a
  cycle), \<^verbatim>\<open>RuntimeError\<close> (raised in the sort when a node is missing from the in-degree
  table), \<^verbatim>\<open>KeyError\<close> (a failed dictionary lookup in \<^verbatim>\<open>run\<close>) and whatever a task's
  own \<^verbatim>\<open>execute\<close> raises.
\<close>

datatype error = NetworkXUnfeasible | RuntimeError | KeyError | TaskFailed

text \<open>
  A \<^verbatim>\<open>torch.device\<close>: its type string and optional index.
\<close>

datatype device = Device (dev_type: string) (dev_index: "nat option")

text \<open>
  The values that \<^verbatim>\<open>_move_tensors\<close> tells apart: a tensor (with the device it lives on),
  a \<^verbatim>\<open>dict\<close>, a \<^verbatim>\<open>list\<close>, a \<^verbatim>\<open>tuple\<close>, and any other object.
\<close>

datatype 'a pyvalue =
    Tensor device 'a
  | PyDict "('a \<times> 'a pyvalue) list"
  | PyList "'a pyvalue list"
  | PyTuple "'a pyvalue list"
  | Other 'a

text \<open>
  A Python \<^verbatim>\<open>dict\<close> is an association list in insertion order with distinct keys
  (\<^const>\<open>AList.update\<close> replaces in place or appends, \<^const>\<open>AList.delete\<close> removes).
  A Python \<^verbatim>\<open>set\<close> is a duplicate-free list; its iteration order is fixed here to the
  order of insertion.
\<close>

type_synonym ('k, 'v) dict = "('k \<times> 'v) list"

definition dict_in :: "'k \<Rightarrow> ('k, 'v) dict \<Rightarrow> bool" where
  "dict_in k d = (k \<in> fst ` set d)"

definition set_add :: "'a \<Rightarrow> 'a list \<Rightarrow> 'a list" where
  "set_add x s = (if x \<in> set s then s else s @ [x])"

text \<open>
  \<^verbatim>\<open>self.cached_values or {}\<close>: an absent mapping reads as the empty one.
\<close>

definition or_empty :: "('k, 'v) dict option \<Rightarrow> ('k, 'v) dict" where
  "or_empty c = (case c of None \<Rightarrow> [] | Some d \<Rightarrow> d)"

text \<open>
  The \<^verbatim>\<open>Task\<close> interface. Tasks are frozen models compared by their configuration, so a
  task is a value of a type \<open>'task\<close> with equality, and the methods are functions of it.
  \<^verbatim>\<open>arguments()\<close> is a dictionary from argument names to tasks; \<^verbatim>\<open>execute\<close> receives the
  resolved arguments and may raise (\<open>None\<close>).
\<close>

record ('task, 'a) task_ops =
  arguments :: "'task \<Rightarrow> (string, 'task) dict"
  execute :: "'task \<Rightarrow> (string, 'a pyvalue) dict \<Rightarrow> 'a pyvalue option"
  priority :: "'task \<Rightarrow> int"
  group_label :: "'task \<Rightarrow> string option"
  uses_accelerator :: "'task \<Rightarrow> bool"
  main_thread_only :: "'task \<Rightarrow> bool"

section \<open>The dependency collector\<close>

text \<open>
  The inner loop of \<^verbatim>\<open>_build_dependencies\<close>:
  \<^verbatim>\<open>for _, dep in child.arguments().items():
      task_dependencies[child].add(dep); to_process.append(dep)\<close>
\<close>

fun add_deps :: "'task \<Rightarrow> (string, 'task) dict
    \<Rightarrow> ('task, 'task list) dict \<times> 'task list \<Rightarrow> ('task, 'task list) dict \<times> 'task list" where
  "add_deps child [] s = s"
| "add_deps child ((name, dep) # items) (td, tp) =
     add_deps child items (AList.map_entry child (set_add dep) td, tp @ [dep])"

text \<open>
  The work-stack loop of \<^verbatim>\<open>_build_dependencies\<close>. \<^verbatim>\<open>to_process.pop()\<close> takes the last
  element. The loop runs for as long as new tasks keep turning up, so it is a partial
  function: \<open>None\<close> is the run that never returns.
\<close>

partial_function (option) build_loop :: "('task, 'a) task_ops \<Rightarrow> ('task, 'a pyvalue) dict option
    \<Rightarrow> ('task, 'task list) dict \<Rightarrow> 'task list \<Rightarrow> ('task, 'task list) dict option" where
  [code]: "build_loop ops cached td tp =
     (if tp = [] then Some td
      else if dict_in (last tp) td then build_loop ops cached td (butlast tp)
      else if dict_in (last tp) (or_empty cached)
        then build_loop ops cached (AList.update (last tp) [] td) (butlast tp)
      else build_loop ops cached
             (fst (add_deps (last tp) (arguments ops (last tp))
                     (AList.update (last tp) [] td, butlast tp)))
             (snd (add_deps (last tp) (arguments ops (last tp))
                     (AList.update (last tp) [] td, butlast tp))))"

definition build_dependencies :: "('task, 'a) task_ops \<Rightarrow> ('task, 'a pyvalue) dict option
    \<Rightarrow> 'task list \<Rightarrow> ('task, 'task list) dict option" where
  "build_dependencies ops cached targets = build_loop ops cached [] targets"

section \<open>The directed graph and its lexicographical topological sort\<close>

text \<open>
  Modelled from the spec: \<^verbatim>\<open>networkx.DiGraph\<close> is library code outside the repository.
  The spec has the scheduler build "a directed graph whose edges run from each dependency
  to its dependent". \<^verbatim>\<open>networkx.DiGraph(edge_tups)\<close> is modelled as the library builds
  it: nodes in the order in which they first occur in the edges, and each edge once, in
  the order of insertion.
\<close>

record 'n digraph =
  nodes :: "'n list"
  edges :: "('n \<times> 'n) list"

definition add_edge :: "'n digraph \<Rightarrow> 'n \<times> 'n \<Rightarrow> 'n digraph" where
  "add_edge g e = \<lparr> nodes = set_add (snd e) (set_add (fst e) (nodes g)),
                    edges = set_add e (edges g) \<rparr>"

definition DiGraph :: "('n \<times> 'n) list \<Rightarrow> 'n digraph" where
  "DiGraph edge_tups = foldl add_edge \<lparr> nodes = [], edges = [] \<rparr> edge_tups"

definition successors :: "'n digraph \<Rightarrow> 'n \<Rightarrow> 'n list" where
  "successors g u = map snd (filter (\<lambda>e. fst e = u) (edges g))"

definition in_degree :: "'n digraph \<Rightarrow> 'n \<Rightarrow> int" where
  "in_degree g v = int (length (filter (\<lambda>e. snd e = v) (edges g)))"

fun index_of :: "'n list \<Rightarrow> 'n \<Rightarrow> nat" where
  "index_of [] x = 0"
| "index_of (y # ys) x = (if x = y then 0 else Suc (index_of ys x))"

text \<open>
  Modelled from the spec: \<^verbatim>\<open>networkx.lexicographical_topological_sort\<close> is library code
  outside the repository. The spec describes it as a topological sort that "among all
  nodes whose predecessors are already placed at each step, selects the one with the
  lexicographically smallest key" and that fails with a graph-cycle error when no
  topological order exists. It is modelled as the library runs it: a table of the
  positive in-degrees, a heap of the nodes of in-degree zero ordered by the key and then
  by the position of the node in the graph, and a loop that pops the least node,
  decrements the in-degree of each successor, pushes those that reach zero, and emits
  the node; entries left in the table at the end are a cycle.
\<close>

fun relax :: "'n list \<Rightarrow> ('n, int) dict \<times> 'n list \<Rightarrow> error + ('n, int) dict \<times> 'n list" where
  "relax [] s = Inr s"
| "relax (child # cs) (indegree_map, zero_indegree) =
     (case map_of indegree_map child of
        None \<Rightarrow> Inl RuntimeError
      | Some d \<Rightarrow>
          if d - 1 = 0
          then relax cs (AList.delete child indegree_map, zero_indegree @ [child])
          else relax cs (AList.update child (d - 1) indegree_map, zero_indegree))"

definition heap_key :: "('n \<Rightarrow> 'k) \<Rightarrow> 'n digraph \<Rightarrow> 'n \<Rightarrow> 'k \<times> nat" where
  "heap_key key g n = (key n, index_of (nodes g) n)"

function topo_loop :: "('n \<Rightarrow> 'k::linorder) \<Rightarrow> 'n digraph
    \<Rightarrow> ('n, int) dict \<Rightarrow> 'n list \<Rightarrow> 'n list \<Rightarrow> error + 'n list" where
  "topo_loop key g indegree_map zero_indegree out =
     (if zero_indegree = []
      then (if indegree_map \<noteq> [] then Inl NetworkXUnfeasible else Inr out)
      else if arg_min_list (heap_key key g) zero_indegree \<notin> set (nodes g) then Inl RuntimeError
      else (case relax (successors g (arg_min_list (heap_key key g) zero_indegree))
                   (indegree_map,
                    remove1 (arg_min_list (heap_key key g) zero_indegree) zero_indegree) of
              Inl e \<Rightarrow> Inl e
            | Inr s \<Rightarrow> topo_loop key g (fst s) (snd s)
                        (out @ [arg_min_list (heap_key key g) zero_indegree])))"
  by pat_completeness auto
termination
proof (relation "measure (\<lambda>(key, g, im, zi, out). length im + length zi)", goal_cases)
  case 1
  then show ?case by simp
next
  case (2 key g im zi out s)
  have upd: "length (AList.update c d al) = length al"
    if "c \<in> fst ` set al" for c :: 'a and d :: int and al
    using that by (induction al) auto
  have del: "length (AList.delete c al) < length al"
    if "c \<in> fst ` set al" for c :: 'a and al :: "('a, int) dict"
    using that unfolding AList.delete_eq by (auto intro!: length_filter_less)
  have relax_size: "length im' + length zi' \<le> length im + length zi"
    if "relax cs (im, zi) = Inr (im', zi')"
    for cs :: "'a list" and im im' :: "('a, int) dict" and zi zi' :: "'a list"
    using that
  proof (induction cs arbitrary: im zi)
    case Nil
    then show ?case by simp
  next
    case (Cons c cs)
    from Cons.prems obtain d where d: "map_of im c = Some d"
      by (auto split: option.splits)
    then have c: "c \<in> fst ` set im"
      by (force dest: map_of_SomeD)
    show ?case
    proof (cases "d - 1 = 0")
      case True
      with Cons.prems d have "relax cs (AList.delete c im, zi @ [c]) = Inr (im', zi')" by simp
      from Cons.IH[OF this] del[OF c] show ?thesis by simp
    next
      case False
      with Cons.prems d have "relax cs (AList.update c (d - 1) im, zi) = Inr (im', zi')" by simp
      from Cons.IH[OF this] upd[OF c] show ?thesis by simp
    qed
  qed
  obtain im' zi' where s: "s = (im', zi')" by (cases s)
  from 2(1) have "arg_min_list (heap_key key g) zi \<in> set zi"
    by (simp add: arg_min_list_in)
  moreover from 2(1) have "0 < length zi" by simp
  ultimately have "length (remove1 (arg_min_list (heap_key key g) zi) zi) < length zi"
    by (simp add: length_remove1)
  with relax_size[OF 2(3)[unfolded s]] show ?case
    by (simp add: s)
qed

declare topo_loop.simps [simp del]

definition lexicographical_topological_sort :: "'n digraph \<Rightarrow> ('n \<Rightarrow> 'k::linorder)
    \<Rightarrow> error + 'n list" where
  "lexicographical_topological_sort g key =
     topo_loop key g
       (map (\<lambda>v. (v, in_degree g v)) (filter (\<lambda>v. in_degree g v > 0) (nodes g)))
       (filter (\<lambda>v. in_degree g v = 0) (nodes g))
       []"

section \<open>The scheduler\<close>

text \<open>
  A node of the graph is a task or the string \<^verbatim>\<open>DUMMY_TASK_VALUE\<close>. \<^verbatim>\<open>_index\<close> numbers the
  nodes in the order in which it first sees them, in the dictionary \<^verbatim>\<open>node_indices\<close> and
  the list \<^verbatim>\<open>node_values\<close>.
\<close>

datatype 'task node = TaskNode 'task | DUMMY_TASK_VALUE

type_synonym 'task index_state = "('task node, nat) dict \<times> 'task node list"

definition index :: "'task node \<Rightarrow> 'task index_state \<Rightarrow> nat \<times> 'task index_state" where
  "index node st =
     (case map_of (fst st) node of
        Some i \<Rightarrow> (i, st)
      | None \<Rightarrow> (length (fst st), (fst st @ [(node, length (fst st))], snd st @ [node])))"

text \<open>
  \<^verbatim>\<open>for dependency in self.dependencies[node]:
      edge_tups.append((_index(dependency), _index(node)))\<close>
\<close>

fun dep_edges_of :: "'task \<Rightarrow> 'task list \<Rightarrow> 'task index_state \<times> (nat \<times> nat) list
    \<Rightarrow> 'task index_state \<times> (nat \<times> nat) list" where
  "dep_edges_of node [] s = s"
| "dep_edges_of node (dependency # ds) (st, edge_tups) =
     (case index (TaskNode dependency) st of (i, st1) \<Rightarrow>
      case index (TaskNode node) st1 of (j, st2) \<Rightarrow>
        dep_edges_of node ds (st2, edge_tups @ [(i, j)]))"

fun dep_edges :: "('task, 'task list) dict \<Rightarrow> 'task index_state \<times> (nat \<times> nat) list
    \<Rightarrow> 'task index_state \<times> (nat \<times> nat) list" where
  "dep_edges [] s = s"
| "dep_edges ((node, ds) # rest) s = dep_edges rest (dep_edges_of node ds s)"

text \<open>
  \<^verbatim>\<open>for task in targets: edge_tups.append((dummy_index, _index(task)))\<close>
\<close>

fun target_edges :: "nat \<Rightarrow> 'task list \<Rightarrow> 'task index_state \<times> (nat \<times> nat) list
    \<Rightarrow> 'task index_state \<times> (nat \<times> nat) list" where
  "target_edges dummy_index [] s = s"
| "target_edges dummy_index (task # ts) (st, edge_tups) =
     (case index (TaskNode task) st of (j, st1) \<Rightarrow>
        target_edges dummy_index ts (st1, edge_tups @ [(dummy_index, j)]))"

definition compare_key :: "('task, 'a) task_ops \<Rightarrow> 'task node list \<Rightarrow> nat \<Rightarrow> string \<times> int" where
  "compare_key ops node_values node =
     (case node_values ! node of
        DUMMY_TASK_VALUE \<Rightarrow> ('''', 0)
      | TaskNode task \<Rightarrow>
          (case group_label ops task of None \<Rightarrow> '''' | Some l \<Rightarrow> l, - priority ops task))"

text \<open>
  The graph of \<^verbatim>\<open>_make_schedule\<close>: the index of the dummy node, \<^verbatim>\<open>node_values\<close> and the
  \<^verbatim>\<open>DiGraph\<close> of the edges.
\<close>

definition schedule_graph :: "('task, 'task list) dict \<Rightarrow> 'task list
    \<Rightarrow> nat \<times> 'task node list \<times> nat digraph" where
  "schedule_graph deps tgts =
     (case dep_edges deps (([], []), []) of (st, edge_tups) \<Rightarrow>
      case index DUMMY_TASK_VALUE st of (dummy_index, st1) \<Rightarrow>
      case target_edges dummy_index tgts (st1, edge_tups) of (st2, edge_tups2) \<Rightarrow>
        (dummy_index, snd st2, DiGraph edge_tups2))"

text \<open>
  The comprehension that ends \<^verbatim>\<open>_make_schedule\<close>: the sorted indices without the dummy
  node and without the tasks of the cached values.
\<close>

fun emit :: "('task, 'v) dict option \<Rightarrow> nat \<Rightarrow> 'task node list \<Rightarrow> nat list \<Rightarrow> 'task list" where
  "emit cached dummy_index node_values [] = []"
| "emit cached dummy_index node_values (idx # rest) =
     (if idx \<noteq> dummy_index
      then (case node_values ! idx of
              TaskNode t \<Rightarrow>
                if \<not> dict_in t (or_empty cached)
                then t # emit cached dummy_index node_values rest
                else emit cached dummy_index node_values rest
            | DUMMY_TASK_VALUE \<Rightarrow> emit cached dummy_index node_values rest)
      else emit cached dummy_index node_values rest)"

definition make_schedule :: "('task, 'a) task_ops \<Rightarrow> ('task, 'a pyvalue) dict option \<Rightarrow> 'task list
    \<Rightarrow> (error + 'task list \<times> ('task, 'task list) dict) option" where
  "make_schedule ops cached tgts =
     (case build_dependencies ops cached tgts of
        None \<Rightarrow> None
      | Some deps \<Rightarrow>
          (case schedule_graph deps tgts of (dummy_index, node_values, graph) \<Rightarrow>
             (case lexicographical_topological_sort graph (compare_key ops node_values) of
                Inl e \<Rightarrow> Some (Inl e)
              | Inr order \<Rightarrow> Some (Inr (emit cached dummy_index node_values order, deps)))))"

section \<open>The executor\<close>

record ('task, 'a) executor =
  cached_values :: "('task, 'a pyvalue) dict option"
  targets :: "'task list"
  math_device :: device
  storage_device :: device
  schedule :: "'task list"
  dependencies :: "('task, 'task list) dict"

definition Executor_init :: "('task, 'a) task_ops \<Rightarrow> 'task list \<Rightarrow> device \<Rightarrow> device
    \<Rightarrow> ('task, 'a pyvalue) dict option \<Rightarrow> (error + ('task, 'a) executor) option" where
  "Executor_init ops tasks math_dev storage_dev cached =
     (case make_schedule ops cached tasks of
        None \<Rightarrow> None
      | Some (Inl e) \<Rightarrow> Some (Inl e)
      | Some (Inr (sched, deps)) \<Rightarrow>
          Some (Inr \<lparr> cached_values = cached, targets = tasks, math_device = math_dev,
                      storage_device = storage_dev, schedule = sched, dependencies = deps \<rparr>))"

text \<open>
  \<^verbatim>\<open>_move_tensors\<close>: a tensor goes to the device, the three containers are rebuilt around
  their moved contents, anything else is returned as it is.
\<close>

primrec move_to :: "device \<Rightarrow> bool \<Rightarrow> 'a pyvalue \<Rightarrow> 'a pyvalue" where
  "move_to dev non_blocking (Tensor d x) = Tensor dev x"
| "move_to dev non_blocking (PyDict kvs) = PyDict (map (map_prod id (move_to dev non_blocking)) kvs)"
| "move_to dev non_blocking (PyList vs) = PyList (map (move_to dev non_blocking) vs)"
| "move_to dev non_blocking (PyTuple vs) = PyTuple (map (move_to dev non_blocking) vs)"
| "move_to dev non_blocking (Other x) = Other x"

definition move_tensors :: "'a pyvalue \<Rightarrow> device \<Rightarrow> bool option \<Rightarrow> 'a pyvalue" where
  "move_tensors v dev non_blocking =
     move_to dev (case non_blocking of None \<Rightarrow> dev_type dev = ''cuda'' | Some b \<Rightarrow> b) v"

text \<open>
  The pre-pass of \<^verbatim>\<open>run\<close>. \<^verbatim>\<open>if t not in last_use_index: last_use_index[t] = idx\<close>:
\<close>

definition assign_absent :: "nat \<Rightarrow> 'k \<Rightarrow> ('k \<rightharpoonup> nat) \<Rightarrow> ('k \<rightharpoonup> nat)" where
  "assign_absent idx k m = (case m k of None \<Rightarrow> m(k \<mapsto> idx) | Some _ \<Rightarrow> m)"

definition last_use_step :: "('task, 'task list) dict \<Rightarrow> nat \<times> 'task \<Rightarrow> ('task \<rightharpoonup> nat)
    \<Rightarrow> ('task \<rightharpoonup> nat)" where
  "last_use_step deps it m =
     assign_absent (fst it) (snd it)
       (fold (assign_absent (fst it))
          (case map_of deps (snd it) of None \<Rightarrow> [] | Some ds \<Rightarrow> ds) m)"

definition last_use_index :: "('task, 'a) executor \<Rightarrow> ('task \<rightharpoonup> nat)" where
  "last_use_index ex =
     fold (assign_absent (length (schedule ex) + 1)) (map fst (or_empty (cached_values ex)))
       (fold (last_use_step (dependencies ex)) (rev (enumerate 0 (schedule ex))) Map.empty)"

text \<open>
  The state of a run: the value store \<^verbatim>\<open>values\<close>, the pairs yielded so far, the tasks
  whose \<^verbatim>\<open>execute\<close> has been called so far, and the mapping of cached values that the
  caller handed in, which the run reads and has no statement to change.
\<close>

record ('task, 'a) run_state =
  vals :: "('task, 'a pyvalue) dict"
  yielded :: "('task \<times> 'a pyvalue) list"
  executed :: "'task list"
  caller_cached :: "('task, 'a pyvalue) dict option"

text \<open>
  \<^verbatim>\<open>values = {}; if self.cached_values: values.update(self.cached_values)\<close>
\<close>

definition dict_update :: "('k, 'v) dict \<Rightarrow> ('k, 'v) dict \<Rightarrow> ('k, 'v) dict" where
  "dict_update d other = foldl (\<lambda>d kv. AList.update (fst kv) (snd kv) d) d other"

definition initial_state :: "('task, 'a) executor \<Rightarrow> ('task, 'a) run_state" where
  "initial_state ex =
     \<lparr> vals = dict_update [] (or_empty (cached_values ex)), yielded = [], executed = [],
       caller_cached = cached_values ex \<rparr>"

fun resolve_arguments :: "('task, 'a) executor \<Rightarrow> bool \<Rightarrow> (string, 'task) dict
    \<Rightarrow> ('task, 'a pyvalue) dict \<Rightarrow> (string, 'a pyvalue) dict \<Rightarrow> error + (string, 'a pyvalue) dict" where
  "resolve_arguments ex use_math_device [] values args = Inr args"
| "resolve_arguments ex use_math_device ((name, dep) # items) values args =
     (case map_of values dep of
        None \<Rightarrow> Inl KeyError
      | Some v \<Rightarrow>
          resolve_arguments ex use_math_device items values
            (AList.update name
               (if use_math_device then move_tensors v (math_device ex) None else v) args))"

fun expired_keys :: "('task \<rightharpoonup> nat) \<Rightarrow> nat \<Rightarrow> 'task list \<Rightarrow> error + 'task list" where
  "expired_keys last_use idx [] = Inr []"
| "expired_keys last_use idx (key # ks) =
     (case last_use key of
        None \<Rightarrow> Inl KeyError
      | Some l \<Rightarrow>
          (case expired_keys last_use idx ks of
             Inl e \<Rightarrow> Inl e
           | Inr expired \<Rightarrow> Inr (if idx \<ge> l then key # expired else expired)))"

text \<open>
  One turn of the main loop of \<^verbatim>\<open>run\<close>, for the schedule entry \<open>(idx, task)\<close>.
\<close>

definition run_step :: "('task, 'a) task_ops \<Rightarrow> ('task, 'a) executor \<Rightarrow> ('task \<rightharpoonup> nat)
    \<Rightarrow> ('task, 'a) run_state \<Rightarrow> nat \<times> 'task \<Rightarrow> error + ('task, 'a) run_state" where
  "run_step ops ex last_use st it =
     (case resolve_arguments ex (uses_accelerator ops (snd it)) (arguments ops (snd it))
             (vals st) [] of
        Inl e \<Rightarrow> Inl e
      | Inr args \<Rightarrow>
          (case execute ops (snd it) args of
             None \<Rightarrow> Inl TaskFailed
           | Some res \<Rightarrow>
               (case expired_keys last_use (fst it)
                       (map fst (AList.update (snd it)
                                   (move_tensors res (storage_device ex) None) (vals st))) of
                  Inl e \<Rightarrow> Inl e
                | Inr expired \<Rightarrow>
                    Inr \<lparr> vals = fold AList.delete expired
                                   (AList.update (snd it)
                                      (move_tensors res (storage_device ex) None) (vals st)),
                          yielded =
                            (if snd it \<in> set (targets ex)
                             then yielded st @ [(snd it, move_tensors res (storage_device ex) None)]
                             else yielded st),
                          executed = executed st @ [snd it],
                          caller_cached = caller_cached st \<rparr>)))"

fun run_loop :: "('task, 'a) task_ops \<Rightarrow> ('task, 'a) executor \<Rightarrow> ('task \<rightharpoonup> nat)
    \<Rightarrow> ('task, 'a) run_state \<Rightarrow> (nat \<times> 'task) list \<Rightarrow> error + ('task, 'a) run_state" where
  "run_loop ops ex last_use st [] = Inr st"
| "run_loop ops ex last_use st (it # its) =
     (case run_step ops ex last_use st it of
        Inl e \<Rightarrow> Inl e
      | Inr st' \<Rightarrow> run_loop ops ex last_use st' its)"

text \<open>
  The run after its first \<open>n\<close> schedule entries (the generator is pulled lazily, so every
  such prefix is a state the caller can stop in), and the whole run.
\<close>

definition run_steps :: "('task, 'a) task_ops \<Rightarrow> ('task, 'a) executor \<Rightarrow> nat
    \<Rightarrow> error + ('task, 'a) run_state" where
  "run_steps ops ex n =
     run_loop ops ex (last_use_index ex) (initial_state ex)
       (take n (enumerate 0 (schedule ex)))"

definition run :: "('task, 'a) task_ops \<Rightarrow> ('task, 'a) executor \<Rightarrow> error + ('task, 'a) run_state" where
  "run ops ex = run_steps ops ex (length (schedule ex))"

section \<open>The scenarios of the specification\<close>

text \<open>
  The tasks of the scenarios. A task that takes arguments adds one to the value of its
  first argument; a task without arguments returns 1.
\<close>

datatype demo_task = TaskA | TaskB | TaskC | TaskD | TaskX | TaskY | TaskZ

definition cpu :: device where
  "cpu = Device ''cpu'' None"

definition demo_execute :: "(string, int pyvalue) dict \<Rightarrow> int pyvalue option" where
  "demo_execute args =
     (case args of
        [] \<Rightarrow> Some (Other 1)
      | (name, Other n) # rest \<Rightarrow> Some (Other (n + 1))
      | _ \<Rightarrow> None)"

definition demo_ops :: "(demo_task \<Rightarrow> (string, demo_task) dict) \<Rightarrow> (demo_task \<Rightarrow> int)
    \<Rightarrow> (demo_task, int) task_ops" where
  "demo_ops args prio =
     \<lparr> arguments = args, execute = (\<lambda>t. demo_execute), priority = prio,
       group_label = (\<lambda>t. None), uses_accelerator = (\<lambda>t. False),
       main_thread_only = (\<lambda>t. False) \<rparr>"

text \<open>The chain: B takes A, C takes B, D takes C.\<close>

fun chain_arguments :: "demo_task \<Rightarrow> (string, demo_task) dict" where
  "chain_arguments TaskB = [(''a'', TaskA)]"
| "chain_arguments TaskC = [(''b'', TaskB)]"
| "chain_arguments TaskD = [(''c'', TaskC)]"
| "chain_arguments t = []"

definition chain_ops :: "(demo_task, int) task_ops" where
  "chain_ops = demo_ops chain_arguments (\<lambda>t. 0)"

text \<open>The fan-out: B and C each take A only.\<close>

fun fanout_arguments :: "demo_task \<Rightarrow> (string, demo_task) dict" where
  "fanout_arguments TaskB = [(''a'', TaskA)]"
| "fanout_arguments TaskC = [(''a'', TaskA)]"
| "fanout_arguments t = []"

definition fanout_ops :: "(demo_task, int) task_ops" where
  "fanout_ops = demo_ops fanout_arguments (\<lambda>t. 0)"

text \<open>The scheduling hints: Z takes the leaves X (priority 1) and Y (priority 5).\<close>

fun hint_arguments :: "demo_task \<Rightarrow> (string, demo_task) dict" where
  "hint_arguments TaskZ = [(''x'', TaskX), (''y'', TaskY)]"
| "hint_arguments t = []"

fun hint_priority :: "demo_task \<Rightarrow> int" where
  "hint_priority TaskX = 1"
| "hint_priority TaskY = 5"
| "hint_priority t = 0"

definition hint_ops :: "(demo_task, int) task_ops" where
  "hint_ops = demo_ops hint_arguments hint_priority"

text \<open>The cycle: A takes B and B takes A.\<close>

fun cycle_arguments :: "demo_task \<Rightarrow> (string, demo_task) dict" where
  "cycle_arguments TaskA = [(''b'', TaskB)]"
| "cycle_arguments TaskB = [(''a'', TaskA)]"
| "cycle_arguments t = []"

definition cycle_ops :: "(demo_task, int) task_ops" where
  "cycle_ops = demo_ops cycle_arguments (\<lambda>t. 0)"

text \<open>
  The cached input: the chain's A and B, where the \<^verbatim>\<open>execute\<close> of A is any function \<open>f\<close>.
\<close>

definition cached_ops :: "((string, int pyvalue) dict \<Rightarrow> int pyvalue option)
    \<Rightarrow> (demo_task, int) task_ops" where
  "cached_ops f = chain_ops \<lparr> execute := (\<lambda>t. if t = TaskA then f else demo_execute) \<rparr>"

section \<open>Notions used to state the properties\<close>

text \<open>
  The predecessors of a node, and the graphs that \<^const>\<open>DiGraph\<close> builds: no node and no
  edge twice, and every end of an edge among the nodes.
\<close>

definition preds :: "'n digraph \<Rightarrow> 'n \<Rightarrow> 'n set" where
  "preds g v = {u. (u, v) \<in> set (edges g)}"

definition wf_graph :: "'n digraph \<Rightarrow> bool" where
  "wf_graph g \<longleftrightarrow>
     distinct (nodes g) \<and> distinct (edges g) \<and>
     fst ` set (edges g) \<subseteq> set (nodes g) \<and> snd ` set (edges g) \<subseteq> set (nodes g)"

text \<open>
  A list of nodes is in topological order when every node comes after all of its
  predecessors. A node is ready after a prefix of the order when it is not in the prefix
  and all of its predecessors are; the order takes the least ready node at every step
  when the node at each position is at most every node ready after the prefix before it.
\<close>

definition topological :: "'n digraph \<Rightarrow> 'n list \<Rightarrow> bool" where
  "topological g out \<longleftrightarrow> (\<forall>i < length out. preds g (out ! i) \<subseteq> set (take i out))"

definition ready :: "'n digraph \<Rightarrow> 'n list \<Rightarrow> 'n \<Rightarrow> bool" where
  "ready g placed m \<longleftrightarrow> m \<in> set (nodes g) \<and> m \<notin> set placed \<and> preds g m \<subseteq> set placed"

definition least_ready :: "('n \<Rightarrow> 'k::linorder) \<Rightarrow> 'n digraph \<Rightarrow> 'n list \<Rightarrow> bool" where
  "least_ready f g out \<longleftrightarrow>
     (\<forall>i < length out. \<forall>m. ready g (take i out) m \<longrightarrow> f (out ! i) \<le> f m)"

text \<open>
  The invariant of the loop of the sort: the emitted nodes, the heap and the in-degree
  table split the nodes; the heap holds nodes whose predecessors are all emitted; the
  table holds, for each of the others, the positive number of its predecessors not yet
  emitted.
\<close>

definition topo_inv :: "('n \<Rightarrow> 'k::linorder) \<Rightarrow> 'n digraph \<Rightarrow> ('n, int) dict \<Rightarrow> 'n list \<Rightarrow> 'n list
    \<Rightarrow> bool" where
  "topo_inv f g im zi out \<longleftrightarrow>
     distinct out \<and> distinct zi \<and> distinct (map fst im) \<and>
     set out \<inter> set zi = {} \<and> set out \<inter> fst ` set im = {} \<and> set zi \<inter> fst ` set im = {} \<and>
     set out \<union> set zi \<union> fst ` set im = set (nodes g) \<and>
     (\<forall>v \<in> set zi. preds g v \<subseteq> set out) \<and>
     (\<forall>v d. map_of im v = Some d \<longrightarrow> d = int (card (preds g v - set out)) \<and> 0 < d) \<and>
     topological g out \<and> least_ready f g out"

text \<open>
  The tasks that the collector reaches: the targets, and the arguments of every reached
  task that has no cached value. The dependencies that count for a task are its
  arguments, or none when its value is cached; the dependency relation holds the pair of
  each reached task and each of these.
\<close>

inductive_set reachable :: "('task, 'a) task_ops \<Rightarrow> ('task, 'a pyvalue) dict option \<Rightarrow> 'task list
    \<Rightarrow> 'task set" for ops cached tgts where
  target: "t \<in> set tgts \<Longrightarrow> t \<in> reachable ops cached tgts"
| dep: "t \<in> reachable ops cached tgts \<Longrightarrow> \<not> dict_in t (or_empty cached)
         \<Longrightarrow> d \<in> snd ` set (arguments ops t) \<Longrightarrow> d \<in> reachable ops cached tgts"

definition task_deps :: "('task, 'a) task_ops \<Rightarrow> ('task, 'a pyvalue) dict option \<Rightarrow> 'task
    \<Rightarrow> 'task set" where
  "task_deps ops cached t =
     (if dict_in t (or_empty cached) then {} else snd ` set (arguments ops t))"

definition dep_rel :: "('task, 'a) task_ops \<Rightarrow> ('task, 'a pyvalue) dict option \<Rightarrow> 'task list
    \<Rightarrow> ('task \<times> 'task) set" where
  "dep_rel ops cached tgts =
     {(d, t). t \<in> reachable ops cached tgts \<and> d \<in> task_deps ops cached t}"

text \<open>
  The invariant of the collector's loop, and what it says once the stack is empty: the
  dictionary has one entry for each reached task, with the set of its dependencies.
\<close>

definition build_inv :: "('task, 'a) task_ops \<Rightarrow> ('task, 'a pyvalue) dict option \<Rightarrow> 'task list
    \<Rightarrow> ('task, 'task list) dict \<Rightarrow> 'task list \<Rightarrow> bool" where
  "build_inv ops cached tgts td tp \<longleftrightarrow>
     distinct (map fst td) \<and>
     fst ` set td \<subseteq> reachable ops cached tgts \<and>
     set tp \<subseteq> reachable ops cached tgts \<and>
     set tgts \<subseteq> fst ` set td \<union> set tp \<and>
     (\<forall>k ds. (k, ds) \<in> set td \<longrightarrow>
        distinct ds \<and> set ds = task_deps ops cached k \<and> set ds \<subseteq> fst ` set td \<union> set tp)"

definition collected :: "('task, 'a) task_ops \<Rightarrow> ('task, 'a pyvalue) dict option \<Rightarrow> 'task list
    \<Rightarrow> ('task, 'task list) dict \<Rightarrow> bool" where
  "collected ops cached tgts deps \<longleftrightarrow>
     distinct (map fst deps) \<and>
     fst ` set deps = reachable ops cached tgts \<and>
     (\<forall>k ds. (k, ds) \<in> set deps \<longrightarrow> distinct ds \<and> set ds = task_deps ops cached k)"

text \<open>
  The two halves of the state of \<^verbatim>\<open>_index\<close> agree when \<^verbatim>\<open>node_indices\<close> maps every node
  of \<^verbatim>\<open>node_values\<close> to its position. The edges built so far are the edges \<open>NE\<close> between
  nodes, each end replaced by its index.
\<close>

definition idx_ok :: "'task index_state \<Rightarrow> bool" where
  "idx_ok st \<longleftrightarrow> distinct (snd st) \<and> fst st = zip (snd st) [0..<length (snd st)]"

definition idx_pair :: "'n list \<Rightarrow> 'n \<times> 'n \<Rightarrow> nat \<times> nat" where
  "idx_pair nv e = (index_of nv (fst e), index_of nv (snd e))"

definition graph_inv :: "'task index_state \<times> (nat \<times> nat) list \<Rightarrow> ('task node \<times> 'task node) set
    \<Rightarrow> bool" where
  "graph_inv s NE \<longleftrightarrow>
     idx_ok (fst s) \<and> fst ` NE \<union> snd ` NE \<subseteq> set (snd (fst s)) \<and>
     set (snd s) = idx_pair (snd (fst s)) ` NE"

definition node_edges :: "('task, 'task list) dict \<Rightarrow> 'task list \<Rightarrow> ('task node \<times> 'task node) set" where
  "node_edges deps tgts =
     {(TaskNode d, TaskNode t) | d t ds. (t, ds) \<in> set deps \<and> d \<in> set ds} \<union>
     {(DUMMY_TASK_VALUE, TaskNode t) | t. t \<in> set tgts}"

text \<open>
  A schedule places every task after its dependencies when each argument of the task at
  a position that has no cached value is among the tasks before that position.
\<close>

definition deps_first :: "('task, 'a) task_ops \<Rightarrow> ('task, 'a pyvalue) dict option \<Rightarrow> 'task list
    \<Rightarrow> bool" where
  "deps_first ops cached sched \<longleftrightarrow>
     (\<forall>i < length sched. \<forall>d \<in> snd ` set (arguments ops (sched ! i)).
        \<not> dict_in d (or_empty cached) \<longrightarrow> d \<in> set (take i sched))"

text \<open>The position of a task in the chain.\<close>

fun chain_rank :: "demo_task \<Rightarrow> nat" where
  "chain_rank TaskA = 0"
| "chain_rank TaskB = 1"
| "chain_rank TaskC = 2"
| "chain_rank TaskD = 3"
| "chain_rank t = 4"

text \<open>
  The dependency map, the node values and the graph that \<^verbatim>\<open>_make_schedule\<close> builds in the
  scheduling-hint scenario (X is node 0, Z node 1, Y node 2 and the dummy node 3).
\<close>

definition hint_deps :: "(demo_task, demo_task list) dict" where
  "hint_deps = [(TaskZ, [TaskX, TaskY]), (TaskY, []), (TaskX, [])]"

definition hint_nv :: "demo_task node list" where
  "hint_nv = [TaskNode TaskX, TaskNode TaskZ, TaskNode TaskY, DUMMY_TASK_VALUE]"

definition hint_g :: "nat digraph" where
  "hint_g = \<lparr> nodes = [0, 1, 2, 3], edges = [(0, 1), (2, 1), (3, 1)] \<rparr>"

text \<open>
  The scheduling-hint scenario with another priority for the leaf X: X has priority -1,
  all other tasks priority 0.
\<close>

definition low_ops :: "(demo_task, int) task_ops" where
  "low_ops = demo_ops hint_arguments (\<lambda>t. if t = TaskX then - 1 else 0)"

text \<open>
  The tasks that the pre-pass of \<^verbatim>\<open>run\<close> sees at a position of a schedule: the task there
  and the dependencies that the dependency map records for it.
\<close>

definition uses_at :: "('task, 'task list) dict \<Rightarrow> 'task list \<Rightarrow> nat \<Rightarrow> 'task set" where
  "uses_at deps sched i =
     insert (sched ! i) (set (case map_of deps (sched ! i) of None \<Rightarrow> [] | Some ds \<Rightarrow> ds))"

text \<open>
  The keys of the value store after \<open>n\<close> steps, as the last-use indices determine them:
  the cached tasks and the tasks of the first \<open>n\<close> steps whose last use is not before \<open>n\<close>.
\<close>

definition live_keys :: "('task, 'a) executor \<Rightarrow> nat \<Rightarrow> 'task set" where
  "live_keys ex n =
     {k \<in> fst ` set (or_empty (cached_values ex)) \<union> set (take n (schedule ex)).
        \<exists>l. last_use_index ex k = Some l \<and> n \<le> l}"

text \<open>
  The keys of the value store after \<open>n\<close> steps of the run, in the order of the store.
\<close>

definition stored_after :: "('task, 'a) task_ops \<Rightarrow> ('task, 'a) executor \<Rightarrow> nat
    \<Rightarrow> error + 'task list" where
  "stored_after ops ex n =
     (case run_steps ops ex n of Inl e \<Rightarrow> Inl e | Inr st \<Rightarrow> Inr (map fst (vals st)))"

text \<open>
  The executors that construction returns in four scenarios: the chain with target D, the
  fan-out with targets B and C, the chain with the target A itself cached, and the chain
  with target B where A and the unrelated task X are cached.
\<close>

definition chain_ex :: "(demo_task, int) executor" where
  "chain_ex =
     \<lparr> cached_values = None, targets = [TaskD], math_device = cpu, storage_device = cpu,
       schedule = [TaskA, TaskB, TaskC, TaskD],
       dependencies = [(TaskD, [TaskC]), (TaskC, [TaskB]), (TaskB, [TaskA]), (TaskA, [])] \<rparr>"

definition fanout_ex :: "(demo_task, int) executor" where
  "fanout_ex =
     \<lparr> cached_values = None, targets = [TaskB, TaskC], math_device = cpu,
       storage_device = cpu, schedule = [TaskA, TaskC, TaskB],
       dependencies = [(TaskC, [TaskA]), (TaskA, []), (TaskB, [TaskA])] \<rparr>"

definition cached_target_ex :: "(demo_task, int) executor" where
  "cached_target_ex =
     \<lparr> cached_values = Some [(TaskA, Other 5)], targets = [TaskA], math_device = cpu,
       storage_device = cpu, schedule = [], dependencies = [(TaskA, [])] \<rparr>"


section \<open>The cached-input scenario\<close>

lemma cached_scenario_init:
  "Executor_init (cached_ops f) [TaskB] cpu cpu (Some [(TaskA, Other 5)]) =
     Some (Inr \<lparr> cached_values = Some [(TaskA, Other 5)], targets = [TaskB],
                 math_device = cpu, storage_device = cpu, schedule = [TaskB],
                 dependencies = [(TaskB, [TaskA]), (TaskA, [])] \<rparr>)"
  by code_simp

lemma cached_scenario_run:
  "run (cached_ops f)
     \<lparr> cached_values = Some [(TaskA, Other 5)], targets = [TaskB],
       math_device = cpu, storage_device = cpu, schedule = [TaskB],
       dependencies = [(TaskB, [TaskA]), (TaskA, [])] \<rparr> =
   Inr \<lparr> vals = [], yielded = [(TaskB, Other 6)], executed = [TaskB],
         caller_cached = Some [(TaskA, Other 5)] \<rparr>"
  by code_simp

text \<open>
  C5. Task A is supplied in the cached values with value 5, and task B, the only target,
  takes A and computes A + 1. Whatever the \<^verbatim>\<open>execute\<close> of A would do, construction
  succeeds with the schedule [B], and the run yields exactly the pair (B, 6); the only
  task whose \<^verbatim>\<open>execute\<close> is called is B.
\<close>

theorem cached_input_scenario:
  "\<exists>ex st. Executor_init (cached_ops f) [TaskB] cpu cpu (Some [(TaskA, Other 5)]) = Some (Inr ex)
     \<and> schedule ex = [TaskB]
     \<and> run (cached_ops f) ex = Inr st
     \<and> yielded st = [(TaskB, Other 6)]
     \<and> executed st = [TaskB]
     \<and> TaskA \<notin> set (executed st)"
  unfolding cached_scenario_init by (simp add: cached_scenario_run)

section \<open>The sort: one turn of the loop keeps the invariant\<close>

lemma relax_result:
  assumes "distinct cs" "distinct (map fst im)" "\<forall>c \<in> set cs. map_of im c \<noteq> None"
  shows "\<exists>im'. relax cs (im, z) = Inr (im', z @ filter (\<lambda>c. map_of im c = Some 1) cs)
          \<and> distinct (map fst im')
          \<and> (\<forall>v. map_of im' v =
                (if v \<in> set cs
                 then (case map_of im v of None \<Rightarrow> None
                       | Some d \<Rightarrow> if d = 1 then None else Some (d - 1))
                 else map_of im v))"
  using assms
proof (induction cs arbitrary: im z)
  case Nil
  then show ?case by simp
next
  case (Cons c cs)
  from Cons.prems obtain d where d: "map_of im c = Some d" by auto
  from Cons.prems have cs: "distinct cs" "c \<notin> set cs" by auto
  show ?case
  proof (cases "d = 1")
    case True
    let ?im1 = "AList.delete c im"
    have m1: "map_of ?im1 = (map_of im)(c := None)" by (rule delete_conv')
    have d1: "distinct (map fst ?im1)" using Cons.prems(2) by (rule distinct_delete)
    have "\<forall>x \<in> set cs. map_of ?im1 x \<noteq> None"
      using Cons.prems(3) cs by (auto simp: m1)
    from Cons.IH[OF cs(1) d1 this, of "z @ [c]"] obtain im' where
      r: "relax cs (?im1, z @ [c]) = Inr (im', (z @ [c]) @ filter (\<lambda>x. map_of ?im1 x = Some 1) cs)"
      and di: "distinct (map fst im')"
      and mp: "\<forall>v. map_of im' v = (if v \<in> set cs
                 then (case map_of ?im1 v of None \<Rightarrow> None
                       | Some d \<Rightarrow> if d = 1 then None else Some (d - 1))
                 else map_of ?im1 v)" by blast
    have f: "filter (\<lambda>x. map_of ?im1 x = Some 1) cs = filter (\<lambda>x. map_of im x = Some 1) cs"
      using cs by (intro filter_cong) (auto simp: m1)
    have "relax (c # cs) (im, z) = Inr (im', z @ filter (\<lambda>x. map_of im x = Some 1) (c # cs))"
      using r d True by (simp add: f)
    moreover have "\<forall>v. map_of im' v = (if v \<in> set (c # cs)
                 then (case map_of im v of None \<Rightarrow> None
                       | Some d \<Rightarrow> if d = 1 then None else Some (d - 1))
                 else map_of im v)"
      using mp cs d True by (auto simp: m1)
    ultimately show ?thesis using di by blast
  next
    case False
    let ?im1 = "AList.update c (d - 1) im"
    have m1: "map_of ?im1 = (map_of im)(c \<mapsto> d - 1)" by (rule update_conv')
    have d1: "distinct (map fst ?im1)" using Cons.prems(2) by (rule distinct_update)
    have "\<forall>x \<in> set cs. map_of ?im1 x \<noteq> None"
      using Cons.prems(3) cs by (auto simp: m1)
    from Cons.IH[OF cs(1) d1 this, of z] obtain im' where
      r: "relax cs (?im1, z) = Inr (im', z @ filter (\<lambda>x. map_of ?im1 x = Some 1) cs)"
      and di: "distinct (map fst im')"
      and mp: "\<forall>v. map_of im' v = (if v \<in> set cs
                 then (case map_of ?im1 v of None \<Rightarrow> None
                       | Some d \<Rightarrow> if d = 1 then None else Some (d - 1))
                 else map_of ?im1 v)" by blast
    have f: "filter (\<lambda>x. map_of ?im1 x = Some 1) cs = filter (\<lambda>x. map_of im x = Some 1) cs"
      using cs by (intro filter_cong) (auto simp: m1)
    have "relax (c # cs) (im, z) = Inr (im', z @ filter (\<lambda>x. map_of im x = Some 1) (c # cs))"
      using r d False by (simp add: f)
    moreover have "\<forall>v. map_of im' v = (if v \<in> set (c # cs)
                 then (case map_of im v of None \<Rightarrow> None
                       | Some d \<Rightarrow> if d = 1 then None else Some (d - 1))
                 else map_of im v)"
      using mp cs d False by (auto simp: m1)
    ultimately show ?thesis using di by blast
  qed
qed

lemma finite_preds: "finite (preds g v)"
proof -
  have "preds g v \<subseteq> fst ` set (edges g)" by (force simp: preds_def)
  then show ?thesis by (rule finite_subset) simp
qed

lemma successors_distinct: "distinct (edges g) \<Longrightarrow> distinct (successors g u)"
  unfolding successors_def by (auto simp: distinct_map inj_on_def prod_eq_iff)

lemma set_successors: "set (successors g u) = {v. u \<in> preds g v}"
  unfolding successors_def preds_def by force

lemma in_degree_card: "distinct (edges g) \<Longrightarrow> in_degree g v = int (card (preds g v))"
proof -
  assume d: "distinct (edges g)"
  have "preds g v = fst ` set (filter (\<lambda>e. snd e = v) (edges g))"
    by (force simp: preds_def)
  moreover have "inj_on fst (set (filter (\<lambda>e. snd e = v) (edges g)))"
    by (auto simp: inj_on_def prod_eq_iff)
  ultimately have "card (preds g v) = card (set (filter (\<lambda>e. snd e = v) (edges g)))"
    by (simp add: card_image)
  also have "\<dots> = length (filter (\<lambda>e. snd e = v) (edges g))"
    using d by (intro distinct_card) simp
  finally show ?thesis by (simp add: in_degree_def)
qed

lemma topological_closed: "topological g out \<Longrightarrow> v \<in> set out \<Longrightarrow> preds g v \<subseteq> set out"
  unfolding topological_def by (metis in_set_conv_nth set_take_subset subset_trans)


lemma topo_inv_step:
  assumes wf: "wf_graph g" and inv: "topo_inv f g im zi out" and ne: "zi \<noteq> []"
    and f: "f = heap_key key g"
  defines "node \<equiv> arg_min_list f zi"
  shows "node \<in> set (nodes g)"
    and "\<exists>im' zi'. relax (successors g node) (im, remove1 node zi) = Inr (im', zi')
           \<and> topo_inv f g im' zi' (out @ [node])"
proof -
  from inv have d_out: "distinct out" and d_zi: "distinct zi" and d_im: "distinct (map fst im)"
    and dj1: "set out \<inter> set zi = {}" and dj2: "set out \<inter> fst ` set im = {}"
    and dj3: "set zi \<inter> fst ` set im = {}"
    and un: "set out \<union> set zi \<union> fst ` set im = set (nodes g)"
    and zp: "\<forall>v \<in> set zi. preds g v \<subseteq> set out"
    and cnt: "\<forall>v d. map_of im v = Some d \<longrightarrow> d = int (card (preds g v - set out)) \<and> 0 < d"
    and top: "topological g out" and lr: "least_ready f g out"
    unfolding topo_inv_def by simp_all
  from wf have d_e: "distinct (edges g)" and e_n: "snd ` set (edges g) \<subseteq> set (nodes g)"
    unfolding wf_graph_def by simp_all
  have node_zi: "node \<in> set zi" unfolding node_def using ne by (rule arg_min_list_in)
  then show node_n: "node \<in> set (nodes g)" using un by blast
  have node_out: "node \<notin> set out" using node_zi dj1 by blast
  have node_im: "node \<notin> fst ` set im" using node_zi dj3 by blast
  have node_min: "f node \<le> f m" if "m \<in> set zi" for m
  proof -
    have "f node = Min (f ` set zi)" unfolding node_def using ne by (rule f_arg_min_list_f)
    also have "\<dots> \<le> f m" using that by simp
    finally show ?thesis .
  qed
  let ?cs = "successors g node"
  have d_cs: "distinct ?cs" using d_e by (rule successors_distinct)
  have set_cs: "set ?cs = {v. node \<in> preds g v}" by (rule set_successors)
  have dom_im: "\<And>v. (map_of im v \<noteq> None) = (v \<in> fst ` set im)"
    by (simp add: map_of_eq_None_iff)
  have cs_im: "v \<in> fst ` set im" if "v \<in> set ?cs" for v
  proof -
    from that have np: "node \<in> preds g v" by (simp add: set_cs)
    then have "v \<in> set (nodes g)" using e_n by (force simp: preds_def)
    moreover have "v \<notin> set out" using topological_closed[OF top] np node_out by blast
    moreover have "v \<notin> set zi" using zp np node_out by blast
    ultimately show ?thesis using un by blast
  qed
  then have "\<forall>c \<in> set ?cs. map_of im c \<noteq> None" using dom_im by blast
  from relax_result[OF d_cs d_im this, of "remove1 node zi"] obtain im' where
    rel: "relax ?cs (im, remove1 node zi)
            = Inr (im', remove1 node zi @ filter (\<lambda>c. map_of im c = Some 1) ?cs)"
    and d_im': "distinct (map fst im')"
    and mp: "\<And>v. map_of im' v =
                (if v \<in> set ?cs
                 then (case map_of im v of None \<Rightarrow> None
                       | Some d \<Rightarrow> if d = 1 then None else Some (d - 1))
                 else map_of im v)" by blast
  let ?new = "filter (\<lambda>c. map_of im c = Some 1) ?cs"
  let ?zi' = "remove1 node zi @ ?new"
  let ?out' = "out @ [node]"
  have new_im: "set ?new \<subseteq> fst ` set im" using cs_im by auto
  have keys': "fst ` set im' = fst ` set im - set ?new"
  proof -
    have "dom (map_of im') = dom (map_of im) - set ?new"
      by (auto simp: dom_def mp split: option.splits if_splits)
    then show ?thesis by (simp add: dom_map_of_conv_image_fst)
  qed
  have set_zi': "set ?zi' = (set zi - {node}) \<union> set ?new"
    using d_zi by simp
  have c1: "distinct ?out'" using d_out node_out by simp
  have c2: "distinct ?zi'"
    using d_zi d_cs new_im dj3 by (auto simp: distinct_remove1 dest: notin_set_remove1)
  have c4: "set ?out' \<inter> set ?zi' = {}"
    unfolding set_zi' using dj1 dj2 new_im node_im by auto
  have c5: "set ?out' \<inter> fst ` set im' = {}"
    unfolding keys' using dj2 node_im by auto
  have c6: "set ?zi' \<inter> fst ` set im' = {}"
    unfolding set_zi' keys' using dj3 by auto
  have c7: "set ?out' \<union> set ?zi' \<union> fst ` set im' = set (nodes g)"
    unfolding set_zi' keys' using un node_zi new_im by auto
  have c8: "\<forall>v \<in> set ?zi'. preds g v \<subseteq> set ?out'"
  proof
    fix v assume "v \<in> set ?zi'"
    then consider "v \<in> set zi" | "v \<in> set ?new" unfolding set_zi' by blast
    then show "preds g v \<subseteq> set ?out'"
    proof cases
      case 1
      then show ?thesis using zp by auto
    next
      case 2
      then have one: "map_of im v = Some 1" and np: "node \<in> preds g v"
        by (auto simp: set_cs)
      from cnt one have "card (preds g v - set out) = 1" by fastforce
      then obtain x where x: "preds g v - set out = {x}" by (auto simp: card_1_singleton_iff)
      from np node_out have "node \<in> preds g v - set out" by simp
      with x have "x = node" by simp
      with x show ?thesis by auto
    qed
  qed
  have c9: "\<forall>v d. map_of im' v = Some d \<longrightarrow> d = int (card (preds g v - set ?out')) \<and> 0 < d"
  proof (intro allI impI)
    fix v d assume vd: "map_of im' v = Some d"
    show "d = int (card (preds g v - set ?out')) \<and> 0 < d"
    proof (cases "v \<in> set ?cs")
      case True
      with vd mp[of v] obtain d0 where d0: "map_of im v = Some d0" "d0 \<noteq> 1" "d = d0 - 1"
        by (auto split: option.splits if_splits)
      from cnt d0(1) have e0: "d0 = int (card (preds g v - set out))" "0 < d0" by auto
      from True have np: "node \<in> preds g v - set out" using node_out by (simp add: set_cs)
      have "preds g v - set ?out' = (preds g v - set out) - {node}" by auto
      then have "card (preds g v - set ?out') = card (preds g v - set out) - 1"
        using np finite_preds[of g v] by simp
      with e0 d0 show ?thesis by auto
    next
      case False
      with vd mp[of v] have d0: "map_of im v = Some d" by simp
      from False have "node \<notin> preds g v" by (simp add: set_cs)
      then have "preds g v - set ?out' = preds g v - set out" by auto
      with cnt d0 show ?thesis by auto
    qed
  qed
  have c10: "topological g ?out'"
    unfolding topological_def
  proof (intro allI impI)
    fix i assume "i < length ?out'"
    then consider "i < length out" | "i = length out" by fastforce
    then show "preds g (?out' ! i) \<subseteq> set (take i ?out')"
    proof cases
      case 1
      then show ?thesis using top by (simp add: topological_def nth_append)
    next
      case 2
      then show ?thesis using zp node_zi by simp
    qed
  qed
  have c11: "least_ready f g ?out'"
    unfolding least_ready_def
  proof (intro allI impI)
    fix i m assume i: "i < length ?out'" and r: "ready g (take i ?out') m"
    from i consider "i < length out" | "i = length out" by fastforce
    then show "f (?out' ! i) \<le> f m"
    proof cases
      case 1
      then show ?thesis using lr r by (simp add: least_ready_def nth_append)
    next
      case 2
      with r have m: "m \<in> set (nodes g)" "m \<notin> set out" "preds g m \<subseteq> set out"
        by (auto simp: ready_def)
      have "m \<notin> fst ` set im"
      proof
        assume "m \<in> fst ` set im"
        then obtain d where d: "map_of im m = Some d" using dom_im[of m] by auto
        with cnt have "0 < card (preds g m - set out)" by fastforce
        with m(3) show False by (simp add: Diff_eq_empty_iff[THEN iffD2])
      qed
      with m un have "m \<in> set zi" by blast
      then show ?thesis using node_min 2 by simp
    qed
  qed
  have "topo_inv f g im' ?zi' ?out'"
    unfolding topo_inv_def using c1 c2 d_im' c4 c5 c6 c7 c8 c9 c10 c11 by blast
  with rel show "\<exists>im' zi'. relax ?cs (im, remove1 node zi) = Inr (im', zi')
           \<and> topo_inv f g im' zi' (out @ [node])" by blast
qed

section \<open>The sort is a topological sort that takes the least ready node\<close>

lemma index_of_less: "x \<in> set xs \<Longrightarrow> index_of xs x < length xs"
  by (induction xs) auto

lemma nth_index_of: "x \<in> set xs \<Longrightarrow> xs ! index_of xs x = x"
  by (induction xs) auto

lemma index_of_nth: "distinct xs \<Longrightarrow> i < length xs \<Longrightarrow> index_of xs (xs ! i) = i"
proof (induction xs arbitrary: i)
  case Nil
  then show ?case by simp
next
  case (Cons x xs)
  then show ?case by (cases i) auto
qed

lemma index_of_inj: "x \<in> set xs \<Longrightarrow> y \<in> set xs \<Longrightarrow> index_of xs x = index_of xs y \<Longrightarrow> x = y"
  by (metis nth_index_of)

lemma index_of_append: "x \<in> set xs \<Longrightarrow> index_of (xs @ ys) x = index_of xs x"
  by (induction xs) auto

lemma closed_under_preds_cyclic:
  assumes ne: "S \<noteq> {}" and cl: "\<forall>v \<in> S. \<exists>u \<in> S. (u, v) \<in> r" and fin: "finite r"
  shows "\<not> acyclic r"
proof
  assume "acyclic r"
  with fin have "wf r" by (rule finite_acyclic_wf)
  from ne obtain x where "x \<in> S" by blast
  with \<open>wf r\<close> obtain z where z: "z \<in> S" "\<And>y. (y, z) \<in> r \<Longrightarrow> y \<notin> S"
    by (rule wfE_min) blast
  with cl show False by blast
qed

lemma topological_acyclic:
  assumes d: "distinct out" and top: "topological g out"
    and cov: "snd ` set (edges g) \<subseteq> set out"
  shows "acyclic (set (edges g))"
proof -
  have "set (edges g) \<subseteq> inv_image less_than (index_of out)"
  proof
    fix e assume e: "e \<in> set (edges g)"
    obtain u v where uv: "e = (u, v)" by (cases e)
    from e cov have "v \<in> set out" by (force simp: uv)
    then obtain i where i: "i < length out" "out ! i = v" by (auto simp: in_set_conv_nth)
    from top i have "preds g v \<subseteq> set (take i out)" by (auto simp: topological_def)
    moreover from e have "u \<in> preds g v" by (simp add: preds_def uv)
    ultimately have "u \<in> set (take i out)" by blast
    then obtain j where j: "j < i" "take i out ! j = u"
      using i(1) by (auto simp: in_set_conv_nth)
    then have ju: "out ! j = u" by simp
    have "index_of out u = j" using index_of_nth[OF d, of j] j(1) i(1) ju by simp
    moreover have "index_of out v = i" using index_of_nth[OF d i(1)] i(2) by simp
    ultimately show "e \<in> inv_image less_than (index_of out)"
      using j(1) by (simp add: uv)
  qed
  moreover have "acyclic (inv_image less_than (index_of out))"
    by (intro wf_acyclic wf_inv_image) simp
  ultimately show ?thesis by (rule acyclic_subset[rotated])
qed

lemma topo_loop_correct:
  assumes "wf_graph g" and "topo_inv (heap_key key g) g im zi out"
  shows "(\<exists>res. topo_loop key g im zi out = Inr res \<and> topo_inv (heap_key key g) g [] [] res)
       \<or> (topo_loop key g im zi out = Inl NetworkXUnfeasible \<and> \<not> acyclic (set (edges g)))"
  using assms
proof (induction key g im zi out rule: topo_loop.induct)
  case (1 key g im zi out)
  note wf = "1.prems"(1) and inv = "1.prems"(2)
  show ?case
  proof (cases "zi = []")
    case True
    show ?thesis
    proof (cases "im = []")
      case im: True
      with True inv show ?thesis by (subst topo_loop.simps) simp
    next
      case im: False
      have "\<not> acyclic (set (edges g))"
      proof (rule closed_under_preds_cyclic[where S = "fst ` set im"])
        show "fst ` set im \<noteq> {}" using im by simp
        show "finite (set (edges g))" by simp
        show "\<forall>v \<in> fst ` set im. \<exists>u \<in> fst ` set im. (u, v) \<in> set (edges g)"
        proof
          fix v assume "v \<in> fst ` set im"
          then obtain d where d: "map_of im v = Some d"
            using map_of_eq_None_iff[of im v] by auto
          with inv have "0 < card (preds g v - set out)"
            unfolding topo_inv_def by fastforce
          then obtain u where u: "u \<in> preds g v" "u \<notin> set out"
            by (metis Diff_iff card_gt_0_iff equals0I)
          from u(1) wf have "u \<in> set (nodes g)"
            unfolding wf_graph_def preds_def by force
          with u(2) True inv have "u \<in> fst ` set im"
            unfolding topo_inv_def by auto
          with u(1) show "\<exists>u \<in> fst ` set im. (u, v) \<in> set (edges g)"
            by (auto simp: preds_def)
        qed
      qed
      with True im show ?thesis by (subst topo_loop.simps) simp
    qed
  next
    case False
    let ?node = "arg_min_list (heap_key key g) zi"
    from topo_inv_step[OF wf inv False refl] obtain im' zi' where
      n: "?node \<in> set (nodes g)"
      and rel: "relax (successors g ?node) (im, remove1 ?node zi) = Inr (im', zi')"
      and inv': "topo_inv (heap_key key g) g im' zi' (out @ [?node])" by blast
    have ih: "(\<exists>res. topo_loop key g im' zi' (out @ [?node]) = Inr res
                  \<and> topo_inv (heap_key key g) g [] [] res)
       \<or> (topo_loop key g im' zi' (out @ [?node]) = Inl NetworkXUnfeasible
            \<and> \<not> acyclic (set (edges g)))"
      using "1.IH"[OF False _ rel] n wf inv' by simp
    have "topo_loop key g im zi out = topo_loop key g im' zi' (out @ [?node])"
      using False n rel by (subst topo_loop.simps) simp
    with ih show ?thesis by simp
  qed
qed

lemma topo_inv_init:
  assumes wf: "wf_graph g"
  shows "topo_inv f g (map (\<lambda>v. (v, in_degree g v)) (filter (\<lambda>v. in_degree g v > 0) (nodes g)))
           (filter (\<lambda>v. in_degree g v = 0) (nodes g)) []"
proof -
  let ?im = "map (\<lambda>v. (v, in_degree g v)) (filter (\<lambda>v. in_degree g v > 0) (nodes g))"
  let ?zi = "filter (\<lambda>v. in_degree g v = 0) (nodes g)"
  from wf have dn: "distinct (nodes g)" and de: "distinct (edges g)"
    unfolding wf_graph_def by simp_all
  note deg = in_degree_card[OF de]
  have keys: "map fst ?im = filter (\<lambda>v. in_degree g v > 0) (nodes g)"
    by (simp add: comp_def)
  have fk: "fst ` set ?im = {v \<in> set (nodes g). 0 < in_degree g v}"
    using keys by (metis set_filter set_map)
  have z: "\<forall>v \<in> set ?zi. preds g v \<subseteq> set []"
    using finite_preds[of g] by (auto simp: deg)
  have c: "\<forall>v d. map_of ?im v = Some d \<longrightarrow> d = int (card (preds g v - set [])) \<and> 0 < d"
  proof (intro allI impI)
    fix v d
    assume "map_of ?im v = Some d"
    from map_of_SomeD[OF this] have "d = in_degree g v" "0 < in_degree g v" by auto
    then show "d = int (card (preds g v - set [])) \<and> 0 < d" by (simp add: deg)
  qed
  have nonneg: "\<And>v. 0 \<le> in_degree g v" by (simp add: in_degree_def)
  have u: "set [] \<union> set ?zi \<union> fst ` set ?im = set (nodes g)"
    unfolding fk using nonneg by (auto simp: order_le_less)
  have dj: "set ?zi \<inter> fst ` set ?im = {}"
    unfolding fk by auto
  have t: "topological g []" by (simp add: topological_def)
  have l: "least_ready f g []" by (simp add: least_ready_def)
  have d1: "distinct ?zi" using dn by simp
  have d2: "distinct (map fst ?im)" unfolding keys using dn by simp
  show ?thesis
    unfolding topo_inv_def
    apply (intro conjI)
    subgoal by simp
    subgoal by (rule d1)
    subgoal by (rule d2)
    subgoal by simp
    subgoal by simp
    subgoal by (rule dj)
    subgoal by (rule u)
    subgoal by (rule z)
    subgoal by (rule c)
    subgoal by (rule t)
    subgoal by (rule l)
    done
qed

lemma lts_cases:
  assumes "wf_graph g"
  shows "(\<exists>out. lexicographical_topological_sort g key = Inr out
            \<and> distinct out \<and> set out = set (nodes g) \<and> topological g out
            \<and> least_ready (heap_key key g) g out \<and> acyclic (set (edges g)))
       \<or> (lexicographical_topological_sort g key = Inl NetworkXUnfeasible
            \<and> \<not> acyclic (set (edges g)))"
proof -
  from topo_loop_correct[OF assms topo_inv_init[OF assms]]
  consider res where "lexicographical_topological_sort g key = Inr res"
      "topo_inv (heap_key key g) g [] [] res"
    | "lexicographical_topological_sort g key = Inl NetworkXUnfeasible"
      "\<not> acyclic (set (edges g))"
    unfolding lexicographical_topological_sort_def by blast
  then show ?thesis
  proof cases
    case 1
    from 1(2) have p: "distinct res" "set res = set (nodes g)" "topological g res"
      "least_ready (heap_key key g) g res"
      unfolding topo_inv_def by simp_all
    from assms p(2) have "snd ` set (edges g) \<subseteq> set res" unfolding wf_graph_def by simp
    from topological_acyclic[OF p(1) p(3) this] 1(1) p show ?thesis by blast
  next
    case 2
    then show ?thesis by blast
  qed
qed

section \<open>The collector gathers the reachable tasks\<close>

lemma update_new: "k \<notin> fst ` set al \<Longrightarrow> AList.update k v al = al @ [(k, v)]"
  by (induction al) auto

lemma map_entry_last:
  "k \<notin> fst ` set al \<Longrightarrow> AList.map_entry k f (al @ [(k, v)]) = al @ [(k, f v)]"
  by (induction al) auto

lemma set_add_set: "set (set_add x s) = insert x (set s)"
  by (auto simp: set_add_def)

lemma set_add_distinct: "distinct s \<Longrightarrow> distinct (set_add x s)"
  by (auto simp: set_add_def)

lemma add_deps_result:
  assumes "child \<notin> fst ` set td"
  shows "\<exists>ds. add_deps child items (td @ [(child, s)], tp) = (td @ [(child, ds)], tp @ map snd items)
           \<and> set ds = set s \<union> snd ` set items \<and> (distinct s \<longrightarrow> distinct ds)"
  using assms
proof (induction items arbitrary: s tp)
  case Nil
  then show ?case by simp
next
  case (Cons it items)
  obtain name d where it: "it = (name, d)" by (cases it)
  from Cons.IH[OF Cons.prems, of "set_add d s" "tp @ [d]"] obtain ds where
    "add_deps child items (td @ [(child, set_add d s)], tp @ [d])
       = (td @ [(child, ds)], (tp @ [d]) @ map snd items)"
    "set ds = set (set_add d s) \<union> snd ` set items" "distinct (set_add d s) \<longrightarrow> distinct ds"
    by blast
  then show ?case
    using Cons.prems by (auto simp: it map_entry_last set_add_set set_add_distinct)
qed

lemma build_invD:
  assumes "build_inv ops cached tgts td tp"
  shows "distinct (map fst td)" and "fst ` set td \<subseteq> reachable ops cached tgts"
    and "set tp \<subseteq> reachable ops cached tgts" and "set tgts \<subseteq> fst ` set td \<union> set tp"
    and "\<And>k ds. (k, ds) \<in> set td \<Longrightarrow> distinct ds"
    and "\<And>k ds. (k, ds) \<in> set td \<Longrightarrow> set ds = task_deps ops cached k"
    and "\<And>k ds. (k, ds) \<in> set td \<Longrightarrow> set ds \<subseteq> fst ` set td \<union> set tp"
proof -
  from assms have al: "distinct (map fst td) \<and>
     fst ` set td \<subseteq> reachable ops cached tgts \<and>
     set tp \<subseteq> reachable ops cached tgts \<and>
     set tgts \<subseteq> fst ` set td \<union> set tp \<and>
     (\<forall>k ds. (k, ds) \<in> set td \<longrightarrow>
        distinct ds \<and> set ds = task_deps ops cached k \<and> set ds \<subseteq> fst ` set td \<union> set tp)"
    unfolding build_inv_def .
  note c2 = al[THEN conjunct2]
  note c3 = c2[THEN conjunct2]
  note c4 = c3[THEN conjunct2]
  note e = c4[THEN conjunct2]
  show "distinct (map fst td)" by (rule al[THEN conjunct1])
  show "fst ` set td \<subseteq> reachable ops cached tgts" by (rule c2[THEN conjunct1])
  show "set tp \<subseteq> reachable ops cached tgts" by (rule c3[THEN conjunct1])
  show "set tgts \<subseteq> fst ` set td \<union> set tp" by (rule c4[THEN conjunct1])
  fix k ds assume "(k, ds) \<in> set td"
  note f = e[rule_format, OF this]
  show "distinct ds" by (rule f[THEN conjunct1])
  show "set ds = task_deps ops cached k" by (rule f[THEN conjunct2, THEN conjunct1])
  show "set ds \<subseteq> fst ` set td \<union> set tp" by (rule f[THEN conjunct2, THEN conjunct2])
qed

lemma build_invI:
  assumes "distinct (map fst td)" and "fst ` set td \<subseteq> reachable ops cached tgts"
    and "set tp \<subseteq> reachable ops cached tgts" and "set tgts \<subseteq> fst ` set td \<union> set tp"
    and "\<And>k ds. (k, ds) \<in> set td \<Longrightarrow> distinct ds"
    and "\<And>k ds. (k, ds) \<in> set td \<Longrightarrow> set ds = task_deps ops cached k"
    and "\<And>k ds. (k, ds) \<in> set td \<Longrightarrow> set ds \<subseteq> fst ` set td \<union> set tp"
  shows "build_inv ops cached tgts td tp"
  unfolding build_inv_def
proof (intro conjI allI impI)
  fix k ds assume "(k, ds) \<in> set td"
  then show "distinct ds" "set ds = task_deps ops cached k" "set ds \<subseteq> fst ` set td \<union> set tp"
    by (rule assms(5-7))+
qed (rule assms(1-4))+

lemma set_butlast_last: "tp \<noteq> [] \<Longrightarrow> set tp = insert (last tp) (set (butlast tp))"
  by (metis append_butlast_last_id list.simps(15) rotate1.simps(2) set_rotate1)

lemma build_inv_seen:
  assumes inv: "build_inv ops cached tgts td tp" and ne: "tp \<noteq> []"
    and seen: "dict_in (last tp) td"
  shows "build_inv ops cached tgts td (butlast tp)"
proof -
  note tp = set_butlast_last[OF ne]
  note d = build_invD[OF inv]
  from seen have "last tp \<in> fst ` set td" by (simp add: dict_in_def)
  then have eq: "fst ` set td \<union> set (butlast tp) = fst ` set td \<union> set tp"
    unfolding tp by blast
  have sub: "set (butlast tp) \<subseteq> set tp" unfolding tp by blast
  show ?thesis
  proof (rule build_invI)
    show "distinct (map fst td)" by (rule d(1))
    show "fst ` set td \<subseteq> reachable ops cached tgts" by (rule d(2))
    show "set (butlast tp) \<subseteq> reachable ops cached tgts" using sub d(3) by blast
    show "set tgts \<subseteq> fst ` set td \<union> set (butlast tp)" unfolding eq by (rule d(4))
    show "\<And>k ds. (k, ds) \<in> set td \<Longrightarrow> distinct ds" by (rule d(5))
    show "\<And>k ds. (k, ds) \<in> set td \<Longrightarrow> set ds = task_deps ops cached k" by (rule d(6))
    show "\<And>k ds. (k, ds) \<in> set td \<Longrightarrow> set ds \<subseteq> fst ` set td \<union> set (butlast tp)"
      unfolding eq by (rule d(7))
  qed
qed

lemma build_inv_add:
  assumes inv: "build_inv ops cached tgts td tp" and ne: "tp \<noteq> []"
    and nk: "last tp \<notin> fst ` set td"
    and ds: "distinct ds" "set ds = task_deps ops cached (last tp)" "set ds \<subseteq> set new"
    and new: "set new \<subseteq> reachable ops cached tgts"
  shows "build_inv ops cached tgts (td @ [(last tp, ds)]) (butlast tp @ new)"
proof -
  let ?c = "last tp"
  note tp = set_butlast_last[OF ne]
  note d = build_invD[OF inv]
  have keys: "fst ` set (td @ [(?c, ds)]) \<union> set (butlast tp @ new)
      = fst ` set td \<union> set tp \<union> set new"
    unfolding tp by auto
  have sub: "set (butlast tp) \<subseteq> set tp" unfolding tp by blast
  have cr: "?c \<in> reachable ops cached tgts" using d(3) ne by auto
  show ?thesis
  proof (rule build_invI)
    show "distinct (map fst (td @ [(?c, ds)]))" using d(1) nk by simp
    show "fst ` set (td @ [(?c, ds)]) \<subseteq> reachable ops cached tgts" using d(2) cr by auto
    show "set (butlast tp @ new) \<subseteq> reachable ops cached tgts" using sub d(3) new by auto
    show "set tgts \<subseteq> fst ` set (td @ [(?c, ds)]) \<union> set (butlast tp @ new)"
      unfolding keys using d(4) by blast
  next
    fix k es assume "(k, es) \<in> set (td @ [(?c, ds)])"
    then consider "(k, es) \<in> set td" | "k = ?c" "es = ds" by auto
    then show "distinct es"
    proof cases
      case 1 then show ?thesis by (rule d(5))
    next
      case 2 then show ?thesis using ds(1) by simp
    qed
  next
    fix k es assume "(k, es) \<in> set (td @ [(?c, ds)])"
    then consider "(k, es) \<in> set td" | "k = ?c" "es = ds" by auto
    then show "set es = task_deps ops cached k"
    proof cases
      case 1 then show ?thesis by (rule d(6))
    next
      case 2 then show ?thesis using ds(2) by simp
    qed
  next
    fix k es assume "(k, es) \<in> set (td @ [(?c, ds)])"
    then consider "(k, es) \<in> set td" | "k = ?c" "es = ds" by auto
    then show "set es \<subseteq> fst ` set (td @ [(?c, ds)]) \<union> set (butlast tp @ new)"
    proof cases
      case 1
      from d(7)[OF this] show ?thesis unfolding keys by blast
    next
      case 2 then show ?thesis unfolding keys using ds(3) by blast
    qed
  qed
qed

lemma build_inv_cached:
  assumes inv: "build_inv ops cached tgts td tp" and ne: "tp \<noteq> []"
    and new: "\<not> dict_in (last tp) td" and c: "dict_in (last tp) (or_empty cached)"
  shows "build_inv ops cached tgts (AList.update (last tp) [] td) (butlast tp)"
proof -
  let ?c = "last tp"
  from new have nk: "?c \<notin> fst ` set td" by (simp add: dict_in_def)
  have upd: "AList.update ?c [] td = td @ [(?c, [])]" using nk by (rule update_new)
  have td: "set [] = task_deps ops cached ?c" using c by (simp add: task_deps_def)
  from build_inv_add[OF inv ne nk _ td, of "[]"] show ?thesis
    unfolding upd by simp
qed

lemma build_inv_expand:
  assumes inv: "build_inv ops cached tgts td tp" and ne: "tp \<noteq> []"
    and new: "\<not> dict_in (last tp) td" and c: "\<not> dict_in (last tp) (or_empty cached)"
  shows "\<exists>ds. add_deps (last tp) (arguments ops (last tp)) (AList.update (last tp) [] td, butlast tp)
            = (td @ [(last tp, ds)], butlast tp @ map snd (arguments ops (last tp)))
          \<and> build_inv ops cached tgts (td @ [(last tp, ds)])
               (butlast tp @ map snd (arguments ops (last tp)))"
proof -
  let ?c = "last tp"
  let ?tp' = "butlast tp @ map snd (arguments ops ?c)"
  from new have nk: "?c \<notin> fst ` set td" by (simp add: dict_in_def)
  have upd: "AList.update ?c [] td = td @ [(?c, [])]" using nk by (rule update_new)
  from add_deps_result[OF nk, of "arguments ops ?c" "[]" "butlast tp"] obtain ds where
    ad: "add_deps ?c (arguments ops ?c) (td @ [(?c, [])], butlast tp) = (td @ [(?c, ds)], ?tp')"
    and ds: "set ds = snd ` set (arguments ops ?c)" "distinct ds" by auto
  have cr: "?c \<in> reachable ops cached tgts" using build_invD(3)[OF inv] ne by auto
  have td: "set ds = task_deps ops cached ?c"
    using c ds(1) by (simp add: task_deps_def)
  have ar: "set (map snd (arguments ops ?c)) \<subseteq> reachable ops cached tgts"
    using reachable.dep[OF cr c] by auto
  have "set ds \<subseteq> set (map snd (arguments ops ?c))" using ds(1) by simp
  from build_inv_add[OF inv ne nk ds(2) td this ar] ad show ?thesis
    unfolding upd by blast
qed

lemma build_inv_final:
  assumes "build_inv ops cached tgts deps []"
  shows "collected ops cached tgts deps"
proof -
  note d = build_invD[OF assms]
  have "t \<in> fst ` set deps" if "t \<in> reachable ops cached tgts" for t
    using that
  proof induction
    case (target t)
    then show ?case using d(4) by auto
  next
    case (dep t x)
    from dep.IH obtain ds where ds: "(t, ds) \<in> set deps" by auto
    from d(6)[OF ds] d(7)[OF ds] have "task_deps ops cached t \<subseteq> fst ` set deps" by simp
    with dep.hyps(2,3) show ?case by (auto simp: task_deps_def)
  qed
  then have "fst ` set deps = reachable ops cached tgts" using d(2) by blast
  then show ?thesis using d(1,5,6) unfolding collected_def by blast
qed

lemma build_inv_init: "build_inv ops cached tgts [] tgts"
  unfolding build_inv_def by (auto intro: reachable.target)

lemma build_loop_sound:
  assumes "build_loop ops cached td tp = Some deps" and "build_inv ops cached tgts td tp"
  shows "collected ops cached tgts deps"
proof -
  have "build_inv ops cached tgts td tp \<longrightarrow> build_inv ops cached tgts deps []"
  proof (rule build_loop.raw_induct[where P = "\<lambda>ops cached td tp deps.
        build_inv ops cached tgts td tp \<longrightarrow> build_inv ops cached tgts deps []",
      OF _ assms(1)], goal_cases)
    case (1 build_loop' ops cached td tp deps)
    show ?case
    proof
      assume inv: "build_inv ops cached tgts td tp"
      show "build_inv ops cached tgts deps []"
      proof (cases "tp = []")
        case True
        with 1(2) inv show ?thesis by simp
      next
        case ne: False
        show ?thesis
        proof (cases "dict_in (last tp) td")
          case True
          with ne 1(2) have "build_loop' ops cached td (butlast tp) = Some deps" by simp
          from 1(1)[OF this] build_inv_seen[OF inv ne True] show ?thesis by simp
        next
          case new: False
          show ?thesis
          proof (cases "dict_in (last tp) (or_empty cached)")
            case True
            with ne new 1(2)
            have "build_loop' ops cached (AList.update (last tp) [] td) (butlast tp) = Some deps"
              by simp
            from 1(1)[OF this] build_inv_cached[OF inv ne new True] show ?thesis by simp
          next
            case False
            from build_inv_expand[OF inv ne new False] obtain ds where
              ad: "add_deps (last tp) (arguments ops (last tp)) (AList.update (last tp) [] td, butlast tp)
                = (td @ [(last tp, ds)], butlast tp @ map snd (arguments ops (last tp)))"
              and inv': "build_inv ops cached tgts (td @ [(last tp, ds)])
                 (butlast tp @ map snd (arguments ops (last tp)))" by blast
            from ne new False 1(2)
            have "build_loop' ops cached (td @ [(last tp, ds)])
                    (butlast tp @ map snd (arguments ops (last tp))) = Some deps"
              by (simp add: ad)
            from 1(1)[OF this] inv' show ?thesis by simp
          qed
        qed
      qed
    qed
  qed
  with assms(2) show ?thesis by (simp add: build_inv_final)
qed

lemma build_loop_terminates:
  fixes ops :: "('t, 'a) task_ops"
  assumes fin: "finite (reachable ops cached tgts)" and inv: "build_inv ops cached tgts td tp"
  shows "\<exists>deps. build_loop ops cached td tp = Some deps"
proof -
  let ?R = "reachable ops cached tgts"
  let ?m = "\<lambda>s :: ('t, 't list) dict \<times> 't list. card (?R - fst ` set (fst s))"
  have wf: "wf (measures [?m, \<lambda>s. length (snd s)])" by simp
  have grow: "card (?R - fst ` set (td @ [(c, ds)])) < card (?R - fst ` set td)"
    if "c \<in> ?R" "c \<notin> fst ` set td" for td :: "('t, 't list) dict" and c ds
  proof (rule psubset_card_mono)
    show "finite (?R - fst ` set td)" using fin by simp
    show "?R - fst ` set (td @ [(c, ds)]) \<subset> ?R - fst ` set td" using that by auto
  qed
  from wf inv show ?thesis
  proof (induction "(td, tp)" arbitrary: td tp rule: wf_induct_rule)
    case less
    note inv = less.prems
    show ?case
    proof (cases "tp = []")
      case True
      then show ?thesis by (subst build_loop.simps) simp
    next
      case ne: False
      then have cr: "last tp \<in> ?R" using build_invD(3)[OF inv] by auto
      show ?thesis
      proof (cases "dict_in (last tp) td")
        case True
        have "((td, butlast tp), (td, tp)) \<in> measures [?m, \<lambda>s. length (snd s)]"
          using ne by simp
        from less.hyps[OF this build_inv_seen[OF inv ne True]]
        show ?thesis using ne True by (subst build_loop.simps) simp
      next
        case new: False
        then have nk: "last tp \<notin> fst ` set td" by (simp add: dict_in_def)
        show ?thesis
        proof (cases "dict_in (last tp) (or_empty cached)")
          case True
          have upd: "AList.update (last tp) [] td = td @ [(last tp, [])]"
            using nk by (rule update_new)
          have "((AList.update (last tp) [] td, butlast tp), (td, tp))
                  \<in> measures [?m, \<lambda>s. length (snd s)]"
            unfolding upd using grow[OF cr nk] by simp
          from less.hyps[OF this build_inv_cached[OF inv ne new True]]
          show ?thesis using ne new True by (subst build_loop.simps) simp
        next
          case False
          from build_inv_expand[OF inv ne new False] obtain ds where
            ad: "add_deps (last tp) (arguments ops (last tp)) (AList.update (last tp) [] td, butlast tp)
              = (td @ [(last tp, ds)], butlast tp @ map snd (arguments ops (last tp)))"
            and inv': "build_inv ops cached tgts (td @ [(last tp, ds)])
               (butlast tp @ map snd (arguments ops (last tp)))" by blast
          have "((td @ [(last tp, ds)], butlast tp @ map snd (arguments ops (last tp))), (td, tp))
                  \<in> measures [?m, \<lambda>s. length (snd s)]"
            using grow[OF cr nk] by simp
          from less.hyps[OF this inv']
          show ?thesis using ne new False by (subst build_loop.simps) (simp add: ad)
        qed
      qed
    qed
  qed
qed

lemma build_dependencies_sound:
  "build_dependencies ops cached tgts = Some deps \<Longrightarrow> collected ops cached tgts deps"
  unfolding build_dependencies_def by (rule build_loop_sound[OF _ build_inv_init])

lemma build_dependencies_total:
  "finite (reachable ops cached tgts) \<Longrightarrow> \<exists>deps. build_dependencies ops cached tgts = Some deps"
  unfolding build_dependencies_def by (rule build_loop_terminates[OF _ build_inv_init])

section \<open>The graph of the scheduler\<close>

lemma index_of_new: "x \<notin> set xs \<Longrightarrow> index_of (xs @ [x]) x = length xs"
  by (induction xs) auto

lemma map_of_zip_upt:
  "distinct xs \<Longrightarrow> map_of (zip xs [k..<k + length xs]) x
     = (if x \<in> set xs then Some (k + index_of xs x) else None)"
proof (induction xs arbitrary: k)
  case Nil
  then show ?case by simp
next
  case (Cons y ys)
  have "[k..<k + length (y # ys)] = k # [Suc k..<Suc k + length ys]"
    by (subst upt_rec) simp
  with Cons.IH[of "Suc k"] Cons.prems show ?case by auto
qed

lemma index_step:
  assumes ok: "idx_ok st" and ix: "index node st = (i, st')"
  shows "idx_ok st'" and "\<exists>ys. snd st' = snd st @ ys" and "node \<in> set (snd st')"
    and "i = index_of (snd st') node"
proof -
  from ok have d: "distinct (snd st)" and z: "fst st = zip (snd st) [0..<length (snd st)]"
    unfolding idx_ok_def by simp_all
  have m: "map_of (fst st) node
      = (if node \<in> set (snd st) then Some (index_of (snd st) node) else None)"
    using map_of_zip_upt[OF d, of 0 node] z by simp
  have "idx_ok st' \<and> (\<exists>ys. snd st' = snd st @ ys) \<and> node \<in> set (snd st')
          \<and> i = index_of (snd st') node"
  proof (cases "node \<in> set (snd st)")
    case True
    with ix m have e: "st' = st" "i = index_of (snd st) node" by (auto simp: index_def)
    show ?thesis unfolding e using ok True by simp
  next
    case False
    have len: "length (fst st) = length (snd st)" by (subst z) simp
    from False ix m have i: "i = length (snd st)"
      and st': "st' = (fst st @ [(node, length (snd st))], snd st @ [node])"
      by (auto simp: index_def len)
    have "fst st @ [(node, length (snd st))]
        = zip (snd st @ [node]) [0..<length (snd st @ [node])]"
      by (subst z) simp
    then have "idx_ok st'" unfolding idx_ok_def st' using d False by simp
    moreover have "i = index_of (snd st') node"
      unfolding i st' using False by (simp add: index_of_new)
    ultimately show ?thesis unfolding st' by simp
  qed
  then show "idx_ok st'" and "\<exists>ys. snd st' = snd st @ ys" and "node \<in> set (snd st')"
    and "i = index_of (snd st') node" by simp_all
qed

lemma idx_pair_append:
  "fst e \<in> set nv \<Longrightarrow> snd e \<in> set nv \<Longrightarrow> idx_pair (nv @ ys) e = idx_pair nv e"
  by (simp add: idx_pair_def index_of_append)

lemma graph_inv_extend:
  assumes inv: "graph_inv (st, es) NE" and ok: "idx_ok st'" and ext: "snd st' = snd st @ ys"
    and a: "a \<in> set (snd st')" and b: "b \<in> set (snd st')"
  shows "graph_inv (st', es @ [(index_of (snd st') a, index_of (snd st') b)]) (insert (a, b) NE)"
proof -
  from inv have f: "fst ` NE \<union> snd ` NE \<subseteq> set (snd st)"
    and e: "set es = idx_pair (snd st) ` NE"
    unfolding graph_inv_def by simp_all
  have "idx_pair (snd st') e = idx_pair (snd st) e" if "e \<in> NE" for e
    unfolding ext using f that by (intro idx_pair_append) auto
  then have "idx_pair (snd st') ` NE = idx_pair (snd st) ` NE" by (intro image_cong) simp_all
  with e have "set (es @ [(index_of (snd st') a, index_of (snd st') b)])
      = idx_pair (snd st') ` insert (a, b) NE"
    by (simp add: idx_pair_def)
  moreover have "fst ` insert (a, b) NE \<union> snd ` insert (a, b) NE \<subseteq> set (snd st')"
    using f a b unfolding ext by auto
  ultimately show ?thesis unfolding graph_inv_def using ok by simp
qed

lemma dep_edges_of_inv:
  assumes "graph_inv s NE"
  shows "graph_inv (dep_edges_of node ds s) (NE \<union> {(TaskNode d, TaskNode node) | d. d \<in> set ds})
       \<and> (\<exists>ys. snd (fst (dep_edges_of node ds s)) = snd (fst s) @ ys)"
  using assms
proof (induction ds arbitrary: s NE)
  case Nil
  then show ?case by simp
next
  case (Cons d ds)
  obtain st es where s: "s = (st, es)" by (cases s)
  obtain i st1 where i: "index (TaskNode d) st = (i, st1)" by (cases "index (TaskNode d) st")
  obtain j st2 where j: "index (TaskNode node) st1 = (j, st2)"
    by (cases "index (TaskNode node) st1")
  from Cons.prems have ok: "idx_ok st" by (simp add: graph_inv_def s)
  note s1 = index_step[OF ok i]
  note s2 = index_step[OF s1(1) j]
  from s1(2) s2(2) obtain ys where ext: "snd st2 = snd st @ ys" by auto
  from s1(3) s2(2) have d2: "TaskNode d \<in> set (snd st2)" by auto
  from s2(2) s1(3) have "i = index_of (snd st2) (TaskNode d)"
    using s1(4) by (auto simp: index_of_append)
  with graph_inv_extend[OF Cons.prems[unfolded s] s2(1) ext d2 s2(3)] s2(4)
  have g: "graph_inv (st2, es @ [(i, j)]) (insert (TaskNode d, TaskNode node) NE)" by simp
  from Cons.IH[OF g] ext
  have "graph_inv (dep_edges_of node ds (st2, es @ [(i, j)]))
          (insert (TaskNode d, TaskNode node) NE \<union> {(TaskNode d, TaskNode node) | d. d \<in> set ds})"
    and "\<exists>zs. snd (fst (dep_edges_of node ds (st2, es @ [(i, j)]))) = snd st @ zs"
    by auto
  moreover have "insert (TaskNode d, TaskNode node) NE \<union> {(TaskNode d, TaskNode node) | d. d \<in> set ds}
      = NE \<union> {(TaskNode x, TaskNode node) | x. x \<in> set (d # ds)}" by auto
  ultimately show ?case by (simp add: s i j)
qed

lemma dep_edges_inv:
  assumes "graph_inv s NE"
  shows "graph_inv (dep_edges deps s)
           (NE \<union> {(TaskNode d, TaskNode t) | d t ds. (t, ds) \<in> set deps \<and> d \<in> set ds})
       \<and> (\<exists>ys. snd (fst (dep_edges deps s)) = snd (fst s) @ ys)"
  using assms
proof (induction deps arbitrary: s NE)
  case Nil
  then show ?case by simp
next
  case (Cons p deps)
  obtain t ds where p: "p = (t, ds)" by (cases p)
  let ?s1 = "dep_edges_of t ds s"
  let ?N1 = "NE \<union> {(TaskNode d, TaskNode t) | d. d \<in> set ds}"
  from dep_edges_of_inv[OF Cons.prems, of t ds]
  have g1: "graph_inv ?s1 ?N1" and e1: "\<exists>ys. snd (fst ?s1) = snd (fst s) @ ys" by simp_all
  from Cons.IH[OF g1] e1
  have "graph_inv (dep_edges deps ?s1)
          (?N1 \<union> {(TaskNode d, TaskNode t) | d t ds. (t, ds) \<in> set deps \<and> d \<in> set ds})"
    and "\<exists>zs. snd (fst (dep_edges deps ?s1)) = snd (fst s) @ zs" by auto
  moreover have "?N1 \<union> {(TaskNode d, TaskNode t) | d t ds. (t, ds) \<in> set deps \<and> d \<in> set ds}
      = NE \<union> {(TaskNode d, TaskNode u) | d u es. (u, es) \<in> set (p # deps) \<and> d \<in> set es}"
    unfolding p by auto
  ultimately show ?case by (simp add: p)
qed

lemma target_edges_inv:
  assumes "graph_inv s NE" and "DUMMY_TASK_VALUE \<in> set (snd (fst s))"
    and "di = index_of (snd (fst s)) DUMMY_TASK_VALUE"
  shows "graph_inv (target_edges di tgts s) (NE \<union> {(DUMMY_TASK_VALUE, TaskNode t) | t. t \<in> set tgts})
       \<and> (\<exists>ys. snd (fst (target_edges di tgts s)) = snd (fst s) @ ys)"
  using assms
proof (induction tgts arbitrary: s NE)
  case Nil
  then show ?case by simp
next
  case (Cons t tgts)
  obtain st es where s: "s = (st, es)" by (cases s)
  obtain j st1 where j: "index (TaskNode t) st = (j, st1)" by (cases "index (TaskNode t) st")
  from Cons.prems have ok: "idx_ok st" by (simp add: graph_inv_def s)
  note s1 = index_step[OF ok j]
  from s1(2) obtain ys where ext: "snd st1 = snd st @ ys" by auto
  from Cons.prems(2) have du: "DUMMY_TASK_VALUE \<in> set (snd st1)" unfolding ext s by simp
  from Cons.prems(2,3) have di: "di = index_of (snd st1) DUMMY_TASK_VALUE"
    unfolding ext s by (simp add: index_of_append)
  from graph_inv_extend[OF Cons.prems(1)[unfolded s] s1(1) ext du s1(3)] s1(4) di
  have g: "graph_inv (st1, es @ [(di, j)]) (insert (DUMMY_TASK_VALUE, TaskNode t) NE)" by simp
  from Cons.IH[OF g] du di ext
  have "graph_inv (target_edges di tgts (st1, es @ [(di, j)]))
          (insert (DUMMY_TASK_VALUE, TaskNode t) NE \<union> {(DUMMY_TASK_VALUE, TaskNode t) | t. t \<in> set tgts})"
    and "\<exists>zs. snd (fst (target_edges di tgts (st1, es @ [(di, j)]))) = snd st @ zs"
    by auto
  moreover have "insert (DUMMY_TASK_VALUE, TaskNode t) NE \<union> {(DUMMY_TASK_VALUE, TaskNode t) | t. t \<in> set tgts}
      = NE \<union> {(DUMMY_TASK_VALUE, TaskNode x) | x. x \<in> set (t # tgts)}" by auto
  ultimately show ?case by (simp add: s j)
qed

lemma set_add_distinct_iff: "distinct (set_add x s) = distinct s"
  by (auto simp: set_add_def)

lemma add_edge_wf:
  assumes "wf_graph g"
  shows "wf_graph (add_edge g e)" and "set (edges (add_edge g e)) = insert e (set (edges g))"
    and "set (nodes (add_edge g e)) = insert (fst e) (insert (snd e) (set (nodes g)))"
  using assms unfolding wf_graph_def add_edge_def
  by (auto simp: set_add_set set_add_distinct_iff)

lemma foldl_add_edge:
  assumes "wf_graph g"
  shows "wf_graph (foldl add_edge g es)
       \<and> set (edges (foldl add_edge g es)) = set (edges g) \<union> set es
       \<and> set (nodes (foldl add_edge g es)) = set (nodes g) \<union> fst ` set es \<union> snd ` set es"
  using assms
proof (induction es arbitrary: g)
  case Nil
  then show ?case by simp
next
  case (Cons e es)
  note a = add_edge_wf[OF Cons.prems, of e]
  from Cons.IH[OF a(1)] show ?case unfolding a(2,3) by auto
qed

lemma DiGraph_spec:
  shows "wf_graph (DiGraph es)" and "set (edges (DiGraph es)) = set es"
    and "set (nodes (DiGraph es)) = fst ` set es \<union> snd ` set es"
proof -
  have "wf_graph \<lparr> nodes = [], edges = ([] :: ('a \<times> 'a) list) \<rparr>" by (simp add: wf_graph_def)
  from foldl_add_edge[OF this, of es]
  show "wf_graph (DiGraph es)" and "set (edges (DiGraph es)) = set es"
    and "set (nodes (DiGraph es)) = fst ` set es \<union> snd ` set es"
    unfolding DiGraph_def by simp_all
qed

lemma graph_inv_grow:
  assumes inv: "graph_inv (st, es) NE" and ok: "idx_ok st'" and ext: "snd st' = snd st @ ys"
  shows "graph_inv (st', es) NE"
proof -
  from inv have f: "fst ` NE \<union> snd ` NE \<subseteq> set (snd st)"
    and e: "set es = idx_pair (snd st) ` NE"
    unfolding graph_inv_def by simp_all
  have "idx_pair (snd st') e = idx_pair (snd st) e" if "e \<in> NE" for e
    unfolding ext using f that by (intro idx_pair_append) auto
  then have "idx_pair (snd st') ` NE = idx_pair (snd st) ` NE" by (intro image_cong) simp_all
  with e have "set es = idx_pair (snd st') ` NE" by simp
  moreover have "fst ` NE \<union> snd ` NE \<subseteq> set (snd st')" using f unfolding ext by auto
  ultimately show ?thesis unfolding graph_inv_def using ok by simp
qed

lemma schedule_graph_spec:
  assumes sg: "schedule_graph deps tgts = (di, nv, g)"
  shows "distinct nv" and "DUMMY_TASK_VALUE \<in> set nv" and "di = index_of nv DUMMY_TASK_VALUE"
    and "fst ` node_edges deps tgts \<union> snd ` node_edges deps tgts \<subseteq> set nv"
    and "wf_graph g" and "set (edges g) = idx_pair nv ` node_edges deps tgts"
    and "set (nodes g) = index_of nv ` (fst ` node_edges deps tgts \<union> snd ` node_edges deps tgts)"
proof -
  let ?N1 = "{(TaskNode d, TaskNode t) | d t ds. (t, ds) \<in> set deps \<and> d \<in> set ds}"
  let ?N2 = "{(DUMMY_TASK_VALUE, TaskNode t) | t. t \<in> set tgts}"
  let ?s0 = "(([], []), []) :: 'a index_state \<times> (nat \<times> nat) list"
  have g0: "graph_inv ?s0 {}" by (simp add: graph_inv_def idx_ok_def)
  obtain st es where s1: "dep_edges deps ?s0 = (st, es)" by (cases "dep_edges deps ?s0")
  from dep_edges_inv[OF g0, of deps] have g1: "graph_inv (st, es) ?N1" by (simp add: s1)
  then have ok: "idx_ok st" by (simp add: graph_inv_def)
  obtain i st1 where ix: "index DUMMY_TASK_VALUE st = (i, st1)"
    by (cases "index DUMMY_TASK_VALUE st")
  note d = index_step[OF ok ix]
  from d(2) obtain ys where ext: "snd st1 = snd st @ ys" by auto
  have g1': "graph_inv (st1, es) ?N1" by (rule graph_inv_grow[OF g1 d(1) ext])
  obtain st2 es2 where s2: "target_edges i tgts (st1, es) = (st2, es2)"
    by (cases "target_edges i tgts (st1, es)")
  have "graph_inv (target_edges i tgts (st1, es)) (?N1 \<union> ?N2)
       \<and> (\<exists>ys. snd (fst (target_edges i tgts (st1, es))) = snd (fst (st1, es)) @ ys)"
    by (rule target_edges_inv[OF g1']) (use d(3,4) in simp_all)
  then have g2: "graph_inv (st2, es2) (?N1 \<union> ?N2)" and ext2: "\<exists>zs. snd st2 = snd st1 @ zs"
    by (simp_all add: s2)
  from sg have r: "di = i" "nv = snd st2" "g = DiGraph es2"
    by (simp_all add: schedule_graph_def s1 ix s2)
  have ne: "node_edges deps tgts = ?N1 \<union> ?N2" by (simp add: node_edges_def)
  from g2 have ok2: "idx_ok st2" and f2: "fst ` (?N1 \<union> ?N2) \<union> snd ` (?N1 \<union> ?N2) \<subseteq> set (snd st2)"
    and e2: "set es2 = idx_pair (snd st2) ` (?N1 \<union> ?N2)"
    unfolding graph_inv_def by simp_all
  show "distinct nv" using ok2 by (simp add: r idx_ok_def)
  show "DUMMY_TASK_VALUE \<in> set nv" using d(3) ext2 by (auto simp: r)
  show "di = index_of nv DUMMY_TASK_VALUE"
    using d(3,4) ext2 by (auto simp: r index_of_append)
  show "fst ` node_edges deps tgts \<union> snd ` node_edges deps tgts \<subseteq> set nv"
    unfolding ne r using f2 .
  show "wf_graph g" unfolding r by (rule DiGraph_spec)
  show e: "set (edges g) = idx_pair nv ` node_edges deps tgts"
    unfolding ne r DiGraph_spec using e2 .
  have "set (nodes g) = fst ` set (edges g) \<union> snd ` set (edges g)"
    unfolding r DiGraph_spec ..
  also have "\<dots> = index_of nv ` (fst ` node_edges deps tgts \<union> snd ` node_edges deps tgts)"
    unfolding e by (force simp: idx_pair_def image_iff)
  finally show "set (nodes g)
      = index_of nv ` (fst ` node_edges deps tgts \<union> snd ` node_edges deps tgts)" .
qed

lemma index_of_notin: "x \<notin> set xs \<Longrightarrow> index_of xs x = length xs"
  by (induction xs) auto

lemma index_of_eq: "x \<in> set xs \<Longrightarrow> index_of xs x = index_of xs y \<Longrightarrow> x = y"
  by (metis index_of_less index_of_notin nat_neq_iff nth_index_of)

lemma collected_edges:
  assumes "collected ops cached tgts deps"
  shows "{(d, t). \<exists>ds. (t, ds) \<in> set deps \<and> d \<in> set ds} = dep_rel ops cached tgts"
proof -
  from assms have k: "fst ` set deps = reachable ops cached tgts"
    and s: "\<And>k ds. (k, ds) \<in> set deps \<Longrightarrow> set ds = task_deps ops cached k"
    unfolding collected_def by blast+
  show ?thesis
  proof (intro equalityI subsetI; clarify)
    fix d t ds assume a: "(t, ds) \<in> set deps" "d \<in> set ds"
    then have "t \<in> reachable ops cached tgts" using k by force
    with a s[OF a(1)] show "(d, t) \<in> dep_rel ops cached tgts" by (simp add: dep_rel_def)
  next
    fix d t assume "(d, t) \<in> dep_rel ops cached tgts"
    then have t: "t \<in> reachable ops cached tgts" and d: "d \<in> task_deps ops cached t"
      by (simp_all add: dep_rel_def)
    from t k obtain ds where ds: "(t, ds) \<in> set deps" by force
    with s[OF ds] d show "\<exists>ds. (t, ds) \<in> set deps \<and> d \<in> set ds" by auto
  qed
qed

lemma dep_rel_reachable:
  assumes "(d, t) \<in> dep_rel ops cached tgts"
  shows "d \<in> reachable ops cached tgts" and "t \<in> reachable ops cached tgts"
proof -
  from assms show t: "t \<in> reachable ops cached tgts" by (simp add: dep_rel_def)
  from assms have "d \<in> task_deps ops cached t" by (simp add: dep_rel_def)
  then have "\<not> dict_in t (or_empty cached)" "d \<in> snd ` set (arguments ops t)"
    by (auto simp: task_deps_def split: if_splits)
  with t show "d \<in> reachable ops cached tgts" by (rule reachable.dep)
qed

lemma node_edges_collected:
  assumes "collected ops cached tgts deps"
  shows "node_edges deps tgts =
     {(TaskNode d, TaskNode t) | d t. (d, t) \<in> dep_rel ops cached tgts} \<union>
     {(DUMMY_TASK_VALUE, TaskNode t) | t. t \<in> set tgts}"
  unfolding node_edges_def collected_edges[OF assms, symmetric] by auto

lemma node_edges_field:
  assumes "collected ops cached tgts deps"
  shows "fst ` node_edges deps tgts \<union> snd ` node_edges deps tgts =
     TaskNode ` reachable ops cached tgts \<union> (if tgts = [] then {} else {DUMMY_TASK_VALUE})"
proof (intro equalityI subsetI)
  fix n assume "n \<in> fst ` node_edges deps tgts \<union> snd ` node_edges deps tgts"
  then show "n \<in> TaskNode ` reachable ops cached tgts \<union> (if tgts = [] then {} else {DUMMY_TASK_VALUE})"
    unfolding node_edges_collected[OF assms]
    by (auto dest: dep_rel_reachable intro: reachable.target)
next
  fix n assume n: "n \<in> TaskNode ` reachable ops cached tgts \<union> (if tgts = [] then {} else {DUMMY_TASK_VALUE})"
  show "n \<in> fst ` node_edges deps tgts \<union> snd ` node_edges deps tgts"
  proof (cases n)
    case DUMMY_TASK_VALUE
    with n obtain t where "t \<in> set tgts" by (cases tgts) (auto split: if_splits)
    then have "(DUMMY_TASK_VALUE, TaskNode t) \<in> node_edges deps tgts"
      by (simp add: node_edges_def)
    then show ?thesis unfolding DUMMY_TASK_VALUE by force
  next
    case (TaskNode t)
    with n have "t \<in> reachable ops cached tgts" by (auto split: if_splits)
    then show ?thesis
    proof cases
      case target
      then have "(DUMMY_TASK_VALUE, TaskNode t) \<in> node_edges deps tgts"
        by (simp add: node_edges_def)
      then show ?thesis unfolding TaskNode by force
    next
      case (dep u)
      then have "(t, u) \<in> dep_rel ops cached tgts" by (simp add: dep_rel_def task_deps_def)
      then have "(TaskNode t, TaskNode u) \<in> node_edges deps tgts"
        unfolding node_edges_collected[OF assms] by simp
      then show ?thesis unfolding TaskNode by force
    qed
  qed
qed

lemma acyclic_transfer:
  assumes col: "collected ops cached tgts deps" and sg: "schedule_graph deps tgts = (di, nv, g)"
  shows "acyclic (set (edges g)) \<longleftrightarrow> acyclic (dep_rel ops cached tgts)"
proof -
  let ?E = "dep_rel ops cached tgts"
  let ?ix = "\<lambda>t. index_of nv (TaskNode t)"
  note sp = schedule_graph_spec[OF sg]
  note ne = node_edges_collected[OF col]
  have mem: "TaskNode t \<in> set nv" if "t \<in> reachable ops cached tgts" for t
    using sp(4) node_edges_field[OF col] that by auto
  have edge: "(?ix d, ?ix t) \<in> set (edges g)" if "(d, t) \<in> ?E" for d t
    unfolding sp(6) ne using that by (force simp: idx_pair_def image_iff)
  have fwd: "(?ix s, ?ix t) \<in> (set (edges g))\<^sup>+" if "(s, t) \<in> ?E\<^sup>+" for s t
    using that
  proof (induction rule: trancl_induct)
    case (base y)
    then show ?case using edge by blast
  next
    case (step y z)
    from edge[OF step.hyps(2)] step.IH show ?case by (rule trancl_into_trancl[rotated])
  qed
  have edge_cases: "\<exists>t. y = ?ix t \<and> t \<in> reachable ops cached tgts
        \<and> (x = di \<or> (\<exists>s. x = ?ix s \<and> (s, t) \<in> ?E))"
    if "(x, y) \<in> set (edges g)" for x y
  proof -
    from that obtain e where e: "e \<in> node_edges deps tgts" "(x, y) = idx_pair nv e"
      unfolding sp(6) by auto
    from e(1) consider d t where "e = (TaskNode d, TaskNode t)" "(d, t) \<in> ?E"
      | t where "e = (DUMMY_TASK_VALUE, TaskNode t)" "t \<in> set tgts"
      unfolding ne by auto
    then show ?thesis
    proof cases
      case 1
      with e(2) dep_rel_reachable(2)[OF 1(2)] show ?thesis by (auto simp: idx_pair_def)
    next
      case 2
      with e(2) sp(3) show ?thesis by (auto simp: idx_pair_def intro: reachable.target)
    qed
  qed
  have di_ne: "?ix s \<noteq> di" for s
  proof
    assume "?ix s = di"
    with sp(3) have "index_of nv DUMMY_TASK_VALUE = index_of nv (TaskNode s)" by simp
    from index_of_eq[OF sp(2) this] show False by simp
  qed
  have inj: "s = t" if "?ix s = ?ix t" "s \<in> reachable ops cached tgts" for s t
    using index_of_eq[OF mem[OF that(2)] that(1)] by simp
  have bwd: "\<exists>t. y = ?ix t \<and> t \<in> reachable ops cached tgts
        \<and> (\<forall>s. s \<in> reachable ops cached tgts \<longrightarrow> x = ?ix s \<longrightarrow> (s, t) \<in> ?E\<^sup>+)"
    if "(x, y) \<in> (set (edges g))\<^sup>+" for x y
    using that
  proof (induction rule: trancl_induct)
    case (base y)
    from edge_cases[OF base] obtain t where t: "y = ?ix t" "t \<in> reachable ops cached tgts"
      "x = di \<or> (\<exists>s. x = ?ix s \<and> (s, t) \<in> ?E)" by blast
    have "(s, t) \<in> ?E\<^sup>+" if "s \<in> reachable ops cached tgts" "x = ?ix s" for s
    proof -
      from t(3) that(2) di_ne obtain s' where s': "?ix s = ?ix s'" "(s', t) \<in> ?E" by metis
      from inj[OF s'(1) that(1)] s'(2) show ?thesis by blast
    qed
    with t(1,2) show ?case by blast
  next
    case (step y z)
    from step.IH obtain t where t: "y = ?ix t" "t \<in> reachable ops cached tgts"
      "\<forall>s. s \<in> reachable ops cached tgts \<longrightarrow> x = ?ix s \<longrightarrow> (s, t) \<in> ?E\<^sup>+" by blast
    from edge_cases[OF step.hyps(2)] obtain u where u: "z = ?ix u" "u \<in> reachable ops cached tgts"
      "y = di \<or> (\<exists>s. y = ?ix s \<and> (s, u) \<in> ?E)" by blast
    from u(3) t(1) di_ne obtain t' where t': "?ix t = ?ix t'" "(t', u) \<in> ?E" by metis
    from inj[OF t'(1) t(2)] t'(2) have tu: "(t, u) \<in> ?E" by simp
    have "(s, u) \<in> ?E\<^sup>+" if "s \<in> reachable ops cached tgts" "x = ?ix s" for s
    proof -
      from t(3) that have "(s, t) \<in> ?E\<^sup>+" by blast
      then show ?thesis using tu by (rule trancl_into_trancl)
    qed
    with u(1,2) show ?case by blast
  qed
  show ?thesis
  proof
    assume a: "acyclic (set (edges g))"
    show "acyclic ?E"
    proof (rule acyclicI, clarify)
      fix t assume "(t, t) \<in> ?E\<^sup>+"
      from fwd[OF this] a show False by (auto simp: acyclic_def)
    qed
  next
    assume a: "acyclic ?E"
    show "acyclic (set (edges g))"
    proof (rule acyclicI, clarify)
      fix x assume "(x, x) \<in> (set (edges g))\<^sup>+"
      from bwd[OF this] obtain t where "x = ?ix t" "t \<in> reachable ops cached tgts"
        "\<forall>s. s \<in> reachable ops cached tgts \<longrightarrow> x = ?ix s \<longrightarrow> (s, t) \<in> ?E\<^sup>+" by blast
      then have "(t, t) \<in> ?E\<^sup>+" by blast
      with a show False by (auto simp: acyclic_def)
    qed
  qed
qed

lemma emit_set:
  "set (emit cached di nv order) =
     {t. \<exists>i \<in> set order. i \<noteq> di \<and> nv ! i = TaskNode t \<and> \<not> dict_in t (or_empty cached)}"
  by (induction order) (auto split: node.splits)

lemma emit_distinct:
  assumes "distinct nv" and "distinct order" and "\<forall>i \<in> set order. i < length nv"
  shows "distinct (emit cached di nv order)"
  using assms(2,3)
proof (induction order)
  case Nil
  then show ?case by simp
next
  case (Cons i order)
  have "t \<notin> set (emit cached di nv order)" if "nv ! i = TaskNode t" for t
  proof
    assume "t \<in> set (emit cached di nv order)"
    then obtain j where j: "j \<in> set order" "nv ! j = TaskNode t" by (auto simp: emit_set)
    with that Cons.prems have "nv ! i = nv ! j" "i < length nv" "j < length nv" by auto
    with assms(1) have "i = j" by (simp add: nth_eq_iff_index_eq)
    with j(1) Cons.prems(1) show False by simp
  qed
  with Cons show ?case by (auto split: node.splits)
qed

lemma emit_take:
  assumes "i < length (emit cached di nv order)"
  shows "\<exists>j < length order. order ! j \<noteq> di \<and> nv ! (order ! j) = TaskNode (emit cached di nv order ! i)
          \<and> take i (emit cached di nv order) = emit cached di nv (take j order)"
  using assms
proof (induction order arbitrary: i)
  case Nil
  then show ?case by simp
next
  case (Cons x order)
  let ?keep = "x \<noteq> di \<and> (\<exists>t. nv ! x = TaskNode t \<and> \<not> dict_in t (or_empty cached))"
  show ?case
  proof (cases ?keep)
    case True
    then obtain t where t: "x \<noteq> di" "nv ! x = TaskNode t" "\<not> dict_in t (or_empty cached)" by blast
    then have e: "emit cached di nv (x # order) = t # emit cached di nv order" by simp
    show ?thesis
    proof (cases i)
      case 0
      have "0 < length (x # order) \<and> (x # order) ! 0 \<noteq> di
          \<and> nv ! ((x # order) ! 0) = TaskNode (emit cached di nv (x # order) ! 0)
          \<and> take 0 (emit cached di nv (x # order)) = emit cached di nv (take 0 (x # order))"
        using t by (simp add: e)
      then show ?thesis unfolding 0 by blast
    next
      case (Suc k)
      with Cons.prems[unfolded e] have "k < length (emit cached di nv order)" by simp
      from Cons.IH[OF this] obtain j where j: "j < length order" "order ! j \<noteq> di"
        "nv ! (order ! j) = TaskNode (emit cached di nv order ! k)"
        "take k (emit cached di nv order) = emit cached di nv (take j order)" by blast
      have "Suc j < length (x # order) \<and> (x # order) ! Suc j \<noteq> di
          \<and> nv ! ((x # order) ! Suc j) = TaskNode (emit cached di nv (x # order) ! Suc k)
          \<and> take (Suc k) (emit cached di nv (x # order)) = emit cached di nv (take (Suc j) (x # order))"
        using j t by (simp add: e)
      then show ?thesis unfolding Suc by blast
    qed
  next
    case False
    then have e: "emit cached di nv (x # order) = emit cached di nv order"
      by (auto split: node.splits)
    from Cons.prems[unfolded e] have "i < length (emit cached di nv order)" .
    from Cons.IH[OF this] obtain j where j: "j < length order" "order ! j \<noteq> di"
      "nv ! (order ! j) = TaskNode (emit cached di nv order ! i)"
      "take i (emit cached di nv order) = emit cached di nv (take j order)" by blast
    have "Suc j < length (x # order) \<and> (x # order) ! Suc j \<noteq> di
        \<and> nv ! ((x # order) ! Suc j) = TaskNode (emit cached di nv (x # order) ! i)
        \<and> take i (emit cached di nv (x # order)) = emit cached di nv (take (Suc j) (x # order))"
      using j e False by (auto split: node.splits)
    then show ?thesis by blast
  qed
qed

section \<open>The schedule\<close>

lemma sorted_schedule:
  assumes col: "collected ops cached tgts deps" and sg: "schedule_graph deps tgts = (di, nv, g)"
    and lts: "lexicographical_topological_sort g key = Inr order"
  shows "distinct (emit cached di nv order)"
    and "set (emit cached di nv order)
          = {t \<in> reachable ops cached tgts. \<not> dict_in t (or_empty cached)}"
    and "deps_first ops cached (emit cached di nv order)"
    and "acyclic (dep_rel ops cached tgts)"
proof -
  let ?R = "reachable ops cached tgts"
  let ?F = "fst ` node_edges deps tgts \<union> snd ` node_edges deps tgts"
  let ?ix = "\<lambda>t. index_of nv (TaskNode t)"
  let ?sched = "emit cached di nv order"
  note sp = schedule_graph_spec[OF sg]
  from lts_cases[OF sp(5), of key] lts
  have o: "distinct order" "set order = set (nodes g)" "topological g order"
    "acyclic (set (edges g))" by auto
  show "acyclic (dep_rel ops cached tgts)"
    using acyclic_transfer[OF col sg] o(4) by simp
  have so: "set order = index_of nv ` ?F" using o(2) sp(7) by simp
  have bound: "\<forall>i \<in> set order. i < length nv"
    unfolding so using sp(4) by (auto intro: index_of_less)
  show "distinct ?sched" using sp(1) o(1) bound by (rule emit_distinct)
  have memR: "TaskNode t \<in> ?F" if "t \<in> ?R" for t
    using node_edges_field[OF col] that by auto
  have ixR: "?ix t \<in> set order" "nv ! ?ix t = TaskNode t" "?ix t \<noteq> di" if "t \<in> ?R" for t
  proof -
    from memR[OF that] show "?ix t \<in> set order" unfolding so by blast
    from memR[OF that] sp(4) have m: "TaskNode t \<in> set nv" by blast
    then show "nv ! ?ix t = TaskNode t" by (rule nth_index_of)
    show "?ix t \<noteq> di"
    proof
      assume "?ix t = di"
      with sp(3) have "index_of nv (TaskNode t) = index_of nv DUMMY_TASK_VALUE" by simp
      from index_of_eq[OF m this] show False by simp
    qed
  qed
  show set_sched: "set ?sched = {t \<in> ?R. \<not> dict_in t (or_empty cached)}"
  proof (intro equalityI subsetI)
    fix t assume "t \<in> set ?sched"
    then obtain i where i: "i \<in> set order" "nv ! i = TaskNode t" "\<not> dict_in t (or_empty cached)"
      by (auto simp: emit_set)
    from i(1) obtain n where n: "n \<in> ?F" "i = index_of nv n" unfolding so by blast
    with sp(4) have "nv ! i = n" by (auto intro: nth_index_of)
    with i(2) n(1) have "TaskNode t \<in> ?F" by simp
    then have "t \<in> ?R" unfolding node_edges_field[OF col] by (auto split: if_splits)
    with i(3) show "t \<in> {t \<in> ?R. \<not> dict_in t (or_empty cached)}" by simp
  next
    fix t assume "t \<in> {t \<in> ?R. \<not> dict_in t (or_empty cached)}"
    then have t: "t \<in> ?R" "\<not> dict_in t (or_empty cached)" by simp_all
    from ixR[OF t(1)] t(2) show "t \<in> set ?sched" unfolding emit_set by blast
  qed
  show "deps_first ops cached ?sched"
    unfolding deps_first_def
  proof (intro allI impI ballI)
    fix i d
    assume i: "i < length ?sched" and d: "d \<in> snd ` set (arguments ops (?sched ! i))"
      and nc: "\<not> dict_in d (or_empty cached)"
    let ?t = "?sched ! i"
    from emit_take[OF i] obtain j where j: "j < length order" "order ! j \<noteq> di"
      "nv ! (order ! j) = TaskNode ?t" "take i ?sched = emit cached di nv (take j order)"
      by blast
    from i have "?t \<in> set ?sched" by simp
    then have t: "?t \<in> ?R" "\<not> dict_in ?t (or_empty cached)" unfolding set_sched by simp_all
    with d have e: "(d, ?t) \<in> dep_rel ops cached tgts"
      by (simp add: dep_rel_def task_deps_def)
    note dR = dep_rel_reachable(1)[OF e]
    from j(1) bound have "order ! j < length nv" by simp
    from index_of_nth[OF sp(1) this] j(3) have oj: "order ! j = ?ix ?t" by simp
    have "(TaskNode d, TaskNode ?t) \<in> node_edges deps tgts"
      unfolding node_edges_collected[OF col] using e by simp
    then have "(?ix d, ?ix ?t) \<in> set (edges g)"
      unfolding sp(6) by (force simp: idx_pair_def image_iff)
    then have "?ix d \<in> preds g (order ! j)" unfolding oj by (simp add: preds_def)
    with o(3) j(1) have "?ix d \<in> set (take j order)" unfolding topological_def by blast
    with ixR(2,3)[OF dR] nc have "d \<in> set (emit cached di nv (take j order))"
      unfolding emit_set by blast
    then show "d \<in> set (take i ?sched)" unfolding j(4) .
  qed
qed

lemma make_schedule_sound:
  assumes "make_schedule ops cached tgts = Some (Inr (sched, deps))"
  shows "build_dependencies ops cached tgts = Some deps" and "collected ops cached tgts deps"
    and "distinct sched"
    and "set sched = {t \<in> reachable ops cached tgts. \<not> dict_in t (or_empty cached)}"
    and "deps_first ops cached sched" and "acyclic (dep_rel ops cached tgts)"
proof -
  from assms obtain deps' where b: "build_dependencies ops cached tgts = Some deps'"
    by (auto simp: make_schedule_def split: option.splits)
  obtain di nv g where sg: "schedule_graph deps' tgts = (di, nv, g)"
    by (cases "schedule_graph deps' tgts")
  from assms b sg obtain order where
    l: "lexicographical_topological_sort g (compare_key ops nv) = Inr order"
    and r: "sched = emit cached di nv order" "deps = deps'"
    by (auto simp: make_schedule_def split: sum.splits)
  note col = build_dependencies_sound[OF b]
  show "build_dependencies ops cached tgts = Some deps" using b r by simp
  show "collected ops cached tgts deps" using col r by simp
  from sorted_schedule[OF col sg l]
  show "distinct sched"
    and "set sched = {t \<in> reachable ops cached tgts. \<not> dict_in t (or_empty cached)}"
    and "deps_first ops cached sched" and "acyclic (dep_rel ops cached tgts)"
    unfolding r by simp_all
qed

lemma make_schedule_result:
  assumes b: "build_dependencies ops cached tgts = Some deps"
  shows "acyclic (dep_rel ops cached tgts)
           \<Longrightarrow> \<exists>sched. make_schedule ops cached tgts = Some (Inr (sched, deps))"
    and "\<not> acyclic (dep_rel ops cached tgts)
           \<Longrightarrow> make_schedule ops cached tgts = Some (Inl NetworkXUnfeasible)"
proof -
  obtain di nv g where sg: "schedule_graph deps tgts = (di, nv, g)"
    by (cases "schedule_graph deps tgts")
  note col = build_dependencies_sound[OF b]
  note sp = schedule_graph_spec[OF sg]
  note tr = acyclic_transfer[OF col sg]
  note c = lts_cases[OF sp(5), of "compare_key ops nv"]
  {
    assume "acyclic (dep_rel ops cached tgts)"
    with tr c obtain order where
      "lexicographical_topological_sort g (compare_key ops nv) = Inr order" by auto
    then show "\<exists>sched. make_schedule ops cached tgts = Some (Inr (sched, deps))"
      by (simp add: make_schedule_def b sg)
  }
  {
    assume "\<not> acyclic (dep_rel ops cached tgts)"
    with tr c have
      "lexicographical_topological_sort g (compare_key ops nv) = Inl NetworkXUnfeasible" by auto
    then show "make_schedule ops cached tgts = Some (Inl NetworkXUnfeasible)"
      by (simp add: make_schedule_def b sg)
  }
qed

section \<open>Construction: acyclic and cyclic graphs\<close>

lemma finite_demo_tasks: "finite (S :: demo_task set)"
proof -
  have "(UNIV :: demo_task set) = {TaskA, TaskB, TaskC, TaskD, TaskX, TaskY, TaskZ}"
    by (auto intro: demo_task.exhaust)
  moreover have "finite {TaskA, TaskB, TaskC, TaskD, TaskX, TaskY, TaskZ}" by simp
  ultimately have "finite (UNIV :: demo_task set)" by (rule ssubst)
  then show ?thesis by (rule finite_subset[OF subset_UNIV])
qed

lemma chain_acyclic: "acyclic (dep_rel chain_ops cached tgts)"
proof -
  have "dep_rel chain_ops cached tgts \<subseteq> measure chain_rank"
  proof
    fix e assume e: "e \<in> dep_rel chain_ops cached tgts"
    obtain d t where dt: "e = (d, t)" by (cases e)
    from e have "d \<in> snd ` set (chain_arguments t)"
      by (auto simp: dt dep_rel_def task_deps_def chain_ops_def demo_ops_def split: if_splits)
    then show "e \<in> measure chain_rank" unfolding dt by (cases t) auto
  qed
  then have "wf (dep_rel chain_ops cached tgts)" by (rule wf_subset[OF wf_measure])
  then show ?thesis by (rule wf_acyclic)
qed

lemma cycle_cyclic: "\<not> acyclic (dep_rel cycle_ops None [TaskA])"
proof -
  have a: "TaskA \<in> reachable cycle_ops None [TaskA]" by (rule reachable.target) simp
  have nc: "\<not> dict_in t (or_empty None)" for t :: demo_task
    by (simp add: dict_in_def or_empty_def)
  have "TaskB \<in> reachable cycle_ops None [TaskA]"
    by (rule reachable.dep[OF a nc]) (simp add: cycle_ops_def demo_ops_def)
  then have "(TaskA, TaskB) \<in> dep_rel cycle_ops None [TaskA]"
    using nc by (simp add: dep_rel_def task_deps_def cycle_ops_def demo_ops_def)
  moreover have "(TaskB, TaskA) \<in> dep_rel cycle_ops None [TaskA]"
    using a nc by (simp add: dep_rel_def task_deps_def cycle_ops_def demo_ops_def)
  ultimately have "(TaskA, TaskA) \<in> (dep_rel cycle_ops None [TaskA])\<^sup>+" by (rule trancl.intros(2)[OF trancl.intros(1)])
  then show ?thesis by (auto simp: acyclic_def)
qed

lemma reachable_execute:
  "reachable (ops\<lparr>execute := f\<rparr>) cached tgts = reachable ops cached tgts"
proof (intro equalityI subsetI)
  fix t assume "t \<in> reachable (ops\<lparr>execute := f\<rparr>) cached tgts"
  then show "t \<in> reachable ops cached tgts"
    by induction (auto intro: reachable.intros)
next
  fix t assume "t \<in> reachable ops cached tgts"
  then show "t \<in> reachable (ops\<lparr>execute := f\<rparr>) cached tgts"
  proof induction
    case (target t)
    then show ?case by (rule reachable.target)
  next
    case (dep t d)
    show ?case by (rule reachable.dep[OF dep.IH dep.hyps(2)]) (use dep.hyps(3) in simp)
  qed
qed

lemma dep_rel_execute:
  "dep_rel (ops\<lparr>execute := f\<rparr>) cached tgts = dep_rel ops cached tgts"
  by (simp add: dep_rel_def reachable_execute task_deps_def)

text \<open>
  C1. For targets whose dependency relation is acyclic (and whose set of reachable tasks
  is finite, so that the collector returns), construction succeeds, and the schedule
  holds every task that is reachable from the targets without going past a cached task
  and is not itself cached, each once; it holds no cached task; it holds every target
  that is not cached; and every task in it comes after each of its arguments that is
  not cached.
\<close>

theorem schedule_of_acyclic_graph:
  assumes "finite (reachable ops cached tgts)" and "acyclic (dep_rel ops cached tgts)"
  shows "\<exists>ex. Executor_init ops tgts math_dev storage_dev cached = Some (Inr ex)
           \<and> distinct (schedule ex)
           \<and> set (schedule ex) = {t \<in> reachable ops cached tgts. \<not> dict_in t (or_empty cached)}
           \<and> (\<forall>t. dict_in t (or_empty cached) \<longrightarrow> t \<notin> set (schedule ex))
           \<and> (\<forall>t \<in> set tgts. \<not> dict_in t (or_empty cached) \<longrightarrow> t \<in> set (schedule ex))
           \<and> deps_first ops cached (schedule ex)"
proof -
  from build_dependencies_total[OF assms(1)] obtain deps where
    b: "build_dependencies ops cached tgts = Some deps" by blast
  from make_schedule_result(1)[OF b assms(2)] obtain sched where
    m: "make_schedule ops cached tgts = Some (Inr (sched, deps))" by blast
  note s = make_schedule_sound[OF m]
  let ?ex = "\<lparr> cached_values = cached, targets = tgts, math_device = math_dev,
               storage_device = storage_dev, schedule = sched, dependencies = deps \<rparr>"
  have "Executor_init ops tgts math_dev storage_dev cached = Some (Inr ?ex)"
    by (simp add: Executor_init_def m)
  moreover have "\<forall>t \<in> set tgts. \<not> dict_in t (or_empty cached) \<longrightarrow> t \<in> set sched"
    unfolding s(4) by (auto intro: reachable.target)
  moreover have "\<forall>t. dict_in t (or_empty cached) \<longrightarrow> t \<notin> set sched"
    unfolding s(4) by simp
  ultimately show ?thesis using s(3,4,5) by simp
qed

theorem schedule_of_acyclic_graph_witness:
  "finite (reachable chain_ops None [TaskD]) \<and> acyclic (dep_rel chain_ops None [TaskD])
   \<and> (\<exists>ex. Executor_init chain_ops [TaskD] cpu cpu None = Some (Inr ex)
           \<and> distinct (schedule ex)
           \<and> set (schedule ex) = {t \<in> reachable chain_ops None [TaskD]. \<not> dict_in t (or_empty (None :: (demo_task, int pyvalue) dict option))}
           \<and> (\<forall>t. dict_in t (or_empty (None :: (demo_task, int pyvalue) dict option)) \<longrightarrow> t \<notin> set (schedule ex))
           \<and> (\<forall>t \<in> set [TaskD]. \<not> dict_in t (or_empty (None :: (demo_task, int pyvalue) dict option)) \<longrightarrow> t \<in> set (schedule ex))
           \<and> deps_first chain_ops None (schedule ex))"
  apply (rule conjI[OF finite_demo_tasks])
  apply (rule conjI[OF chain_acyclic])
  apply (rule schedule_of_acyclic_graph[where ops = chain_ops and cached = None
        and tgts = "[TaskD]", OF finite_demo_tasks chain_acyclic])
  done

text \<open>
  C3. When the dependency relation among the reached tasks without cached values has a
  cycle (and the set of reachable tasks is finite, so that the collector returns),
  construction fails with the graph-cycle error. The failure comes out of the sort that
  builds the schedule and is the same whatever the \<^verbatim>\<open>execute\<close> of the tasks would do: no
  executor exists on which a task could be run.
\<close>

theorem cycle_fails_construction:
  assumes "finite (reachable ops cached tgts)" and "\<not> acyclic (dep_rel ops cached tgts)"
  shows "make_schedule (ops\<lparr>execute := f\<rparr>) cached tgts = Some (Inl NetworkXUnfeasible)
       \<and> Executor_init (ops\<lparr>execute := f\<rparr>) tgts math_dev storage_dev cached
           = Some (Inl NetworkXUnfeasible)"
proof -
  let ?ops = "ops\<lparr>execute := f\<rparr>"
  from assms have a: "finite (reachable ?ops cached tgts)" "\<not> acyclic (dep_rel ?ops cached tgts)"
    by (simp_all add: reachable_execute dep_rel_execute)
  from build_dependencies_total[OF a(1)] obtain deps where
    b: "build_dependencies ?ops cached tgts = Some deps" by blast
  from make_schedule_result(2)[OF b a(2)] show ?thesis
    by (simp add: Executor_init_def)
qed

theorem cycle_fails_construction_witness:
  "finite (reachable cycle_ops None [TaskA]) \<and> \<not> acyclic (dep_rel cycle_ops None [TaskA])
   \<and> make_schedule (cycle_ops\<lparr>execute := (\<lambda>t args. None)\<rparr>) None [TaskA]
        = Some (Inl NetworkXUnfeasible)
   \<and> Executor_init (cycle_ops\<lparr>execute := (\<lambda>t args. None)\<rparr>) [TaskA] cpu cpu None
        = Some (Inl NetworkXUnfeasible)"
  apply (rule conjI[OF finite_demo_tasks])
  apply (rule conjI[OF cycle_cyclic])
  apply (rule cycle_fails_construction[where ops = cycle_ops and cached = None
        and tgts = "[TaskA]", OF finite_demo_tasks cycle_cyclic])
  done

section \<open>The order of the sort\<close>

lemma hint_build: "build_dependencies hint_ops None [TaskZ] = Some hint_deps"
  by code_simp

lemma hint_graph: "schedule_graph hint_deps [TaskZ] = (3, hint_nv, hint_g)"
  by code_simp

lemma hint_sort:
  "lexicographical_topological_sort hint_g (compare_key hint_ops hint_nv) = Inr [2, 0, 3, 1]"
  by code_simp

lemma hint_schedule:
  "make_schedule hint_ops None [TaskZ] = Some (Inr ([TaskY, TaskX, TaskZ], hint_deps))"
  by code_simp

lemma heap_key_le:
  fixes key :: "'n \<Rightarrow> 'k::linorder"
  shows "heap_key key g a \<le> heap_key key g b \<Longrightarrow> key a \<le> key b"
  unfolding heap_key_def less_eq_prod_def fst_conv snd_conv
  apply (erule disjE)
   apply (erule less_imp_le)
  apply (erule conjunct1)
  done

lemma lts_sound:
  fixes key :: "'n \<Rightarrow> 'k::linorder"
  assumes "wf_graph g" and "lexicographical_topological_sort g key = Inr order"
  shows "distinct order" and "set order = set (nodes g)" and "topological g order"
    and "least_ready (heap_key key g) g order" and "acyclic (set (edges g))"
proof -
  from lts_cases[OF assms(1), of key]
  have "distinct order \<and> set order = set (nodes g) \<and> topological g order
      \<and> least_ready (heap_key key g) g order \<and> acyclic (set (edges g))"
    unfolding assms(2) by simp
  then show "distinct order" and "set order = set (nodes g)" and "topological g order"
    and "least_ready (heap_key key g) g order" and "acyclic (set (edges g))"
    by simp_all
qed

lemma sort_least_ready:
  fixes key :: "nat \<Rightarrow> 'k::linorder"
  assumes sg: "schedule_graph deps tgts = (di, nv, g)"
    and lts: "lexicographical_topological_sort g key = Inr order"
    and i: "i < length order"
  shows "ready g (take i order) (order ! i)"
    and "ready g (take i order) m \<Longrightarrow> key (order ! i) \<le> key m"
proof -
  note sp = schedule_graph_spec[OF sg]
  note o = lts_sound[OF sp(5) lts]
  have "distinct (take i order @ order ! i # drop (Suc i) order)"
    unfolding id_take_nth_drop[OF i, symmetric] by (rule o(1))
  then have a: "order ! i \<notin> set (take i order)" by simp
  have "order ! i \<in> set order" using i by (rule nth_mem)
  then have b: "order ! i \<in> set (nodes g)" unfolding o(2) .
  note c = o(3)[unfolded topological_def, rule_format, OF i]
  show "ready g (take i order) (order ! i)"
    unfolding ready_def by (intro conjI) (rule a b c)+
  assume r: "ready g (take i order) m"
  note d = o(4)[unfolded least_ready_def, rule_format, OF i r]
  then show "key (order ! i) \<le> key m" by (rule heap_key_le)
qed

text \<open>
  C6. At each step of the sort in \<^verbatim>\<open>_make_schedule\<close>, the node placed is ready (it is not
  placed yet and all of its predecessors are), and its key is at most the key of every
  ready node; the key of a task is its group label, or the empty string, and then its
  negated priority. In the scenario of the leaves X (priority 1) and Y (priority 5),
  both taken by the target Z and without group labels, the schedule is Y, X, Z.
\<close>

theorem least_key_placed_next:
  assumes "build_dependencies ops cached tgts = Some deps"
    and "schedule_graph deps tgts = (di, nv, g)"
    and "lexicographical_topological_sort g (compare_key ops nv) = Inr order"
  shows "(\<forall>i < length order.
            ready g (take i order) (order ! i)
          \<and> (\<forall>m. ready g (take i order) m
                 \<longrightarrow> compare_key ops nv (order ! i) \<le> compare_key ops nv m))
       \<and> (\<forall>n t. nv ! n = TaskNode t \<longrightarrow>
            compare_key ops nv n
              = (case group_label ops t of None \<Rightarrow> '''' | Some l \<Rightarrow> l, - priority ops t))
       \<and> make_schedule hint_ops None [TaskZ] = Some (Inr ([TaskY, TaskX, TaskZ], hint_deps))"
proof (intro conjI allI impI)
  fix i assume "i < length order"
  from sort_least_ready(1)[OF assms(2,3) this]
  show "ready g (take i order) (order ! i)" .
next
  fix i m assume "i < length order" "ready g (take i order) m"
  from sort_least_ready(2)[OF assms(2,3) this]
  show "compare_key ops nv (order ! i) \<le> compare_key ops nv m" .
next
  fix n t assume "nv ! n = TaskNode t"
  then show "compare_key ops nv n
      = (case group_label ops t of None \<Rightarrow> '''' | Some l \<Rightarrow> l, - priority ops t)"
    by (simp add: compare_key_def)
next
  show "make_schedule hint_ops None [TaskZ] = Some (Inr ([TaskY, TaskX, TaskZ], hint_deps))"
    by (rule hint_schedule)
qed

theorem least_key_placed_next_witness:
  "build_dependencies hint_ops None [TaskZ] = Some hint_deps
   \<and> schedule_graph hint_deps [TaskZ] = (3, hint_nv, hint_g)
   \<and> lexicographical_topological_sort hint_g (compare_key hint_ops hint_nv) = Inr [2, 0, 3, 1]
   \<and> ready hint_g (take 0 [2, 0, 3, 1]) 0
   \<and> compare_key hint_ops hint_nv ([2, 0, 3, 1] ! 0) \<le> compare_key hint_ops hint_nv 0
   \<and> compare_key hint_ops hint_nv 2 = ('''', - 5)
   \<and> compare_key hint_ops hint_nv 0 = ('''', - 1)"
proof -
  note t = least_key_placed_next[OF hint_build hint_graph hint_sort, THEN conjunct1,
      rule_format, of 0, THEN conjunct2, rule_format, of 0]
  have l: "0 < length [2, 0, 3, 1 :: nat]" by simp
  have r: "ready hint_g (take 0 [2, 0, 3, 1]) 0"
    by (simp add: ready_def preds_def hint_g_def)
  have k2: "compare_key hint_ops hint_nv 2 = ('''', - 5)"
    by (simp add: compare_key_def hint_nv_def hint_ops_def demo_ops_def)
  have k0: "compare_key hint_ops hint_nv 0 = ('''', - 1)"
    by (simp add: compare_key_def hint_nv_def hint_ops_def demo_ops_def)
  show ?thesis
    apply (rule conjI[OF hint_build])
    apply (rule conjI[OF hint_graph])
    apply (rule conjI[OF hint_sort])
    apply (rule conjI[OF r])
    apply (rule conjI[OF t[OF l r]])
    apply (rule conjI[OF k2 k0])
    done
qed

section \<open>The place of the dummy node\<close>

lemma reachable_no_targets: "reachable ops cached [] = {}"
proof -
  have "False" if "t \<in> reachable ops cached []" for t
    using that by induction simp_all
  then show ?thesis by blast
qed

lemma dummy_ready:
  assumes b: "build_dependencies ops cached tgts = Some deps"
    and sg: "schedule_graph deps tgts = (di, nv, g)"
    and ne: "set (nodes g) \<noteq> {}"
  shows "nv ! di = DUMMY_TASK_VALUE" and "di \<in> set (nodes g)" and "preds g di = {}"
proof -
  note sp = schedule_graph_spec[OF sg]
  note col = build_dependencies_sound[OF b]
  show "nv ! di = DUMMY_TASK_VALUE"
    unfolding sp(3) using sp(2) by (rule nth_index_of)
  have "tgts \<noteq> []"
  proof
    assume "tgts = []"
    then have "fst ` node_edges deps tgts \<union> snd ` node_edges deps tgts = {}"
      unfolding node_edges_field[OF col] by (simp add: reachable_no_targets)
    with sp(7) ne show False by simp
  qed
  then have "DUMMY_TASK_VALUE \<in> fst ` node_edges deps tgts \<union> snd ` node_edges deps tgts"
    unfolding node_edges_field[OF col] by simp
  then show "di \<in> set (nodes g)" unfolding sp(7) sp(3) by (rule imageI)
  show "preds g di = {}"
  proof (rule equals0I)
    fix u assume "u \<in> preds g di"
    then have "(u, di) \<in> idx_pair nv ` node_edges deps tgts"
      unfolding preds_def sp(6)[symmetric] by simp
    then obtain e where e: "e \<in> node_edges deps tgts" "(u, di) = idx_pair nv e" by blast
    from e(1) obtain t where t: "snd e = TaskNode t" unfolding node_edges_def by auto
    from e(2) t have "index_of nv DUMMY_TASK_VALUE = index_of nv (TaskNode t)"
      unfolding sp(3) by (simp add: idx_pair_def)
    from index_of_eq[OF sp(2) this] show False by simp
  qed
qed

lemma low_build: "build_dependencies low_ops None [TaskZ] = Some hint_deps"
  by code_simp

lemma low_sort:
  "lexicographical_topological_sort hint_g (compare_key low_ops hint_nv) = Inr [2, 3, 0, 1]"
  by code_simp

lemma hint_ready_root: "ready hint_g [] 3"
  by (simp add: ready_def preds_def hint_g_def)

lemma hint_ready_leaf: "ready hint_g [] 2"
  by (simp add: ready_def preds_def hint_g_def)

lemma hint_key_root: "compare_key hint_ops hint_nv 3 = ('''', 0)"
  by (simp add: compare_key_def hint_nv_def)

lemma hint_key_leaf: "compare_key hint_ops hint_nv 2 = ('''', - 5)"
  by (simp add: compare_key_def hint_nv_def hint_ops_def demo_ops_def)

text \<open>
  In the scheduling-hint scenario the dummy node (node 3) and the leaf Y (node 2) are both
  ready before anything is placed, the key of Y is smaller than the key of the dummy node,
  and the sort places Y first and the dummy node third.
\<close>

theorem root_sorts_first_counterexample:
  "build_dependencies hint_ops None [TaskZ] = Some hint_deps
   \<and> schedule_graph hint_deps [TaskZ] = (3, hint_nv, hint_g)
   \<and> hint_nv ! 3 = DUMMY_TASK_VALUE \<and> hint_nv ! 2 = TaskNode TaskY
   \<and> ready hint_g [] 3 \<and> ready hint_g [] 2
   \<and> compare_key hint_ops hint_nv 3 = ('''', 0)
   \<and> compare_key hint_ops hint_nv 2 = ('''', - 5)
   \<and> lexicographical_topological_sort hint_g (compare_key hint_ops hint_nv) = Inr [2, 0, 3, 1]
   \<and> [2, 0, 3, 1 :: nat] ! 0 \<noteq> 3"
  apply (rule conjI[OF hint_build])
  apply (rule conjI[OF hint_graph])
  apply (rule conjI, simp add: hint_nv_def)
  apply (rule conjI, simp add: hint_nv_def)
  apply (rule conjI[OF hint_ready_root])
  apply (rule conjI[OF hint_ready_leaf])
  apply (rule conjI[OF hint_key_root])
  apply (rule conjI[OF hint_key_leaf])
  apply (rule conjI[OF hint_sort])
  apply simp
  done

text \<open>
  C7, as the code has it. The dummy node has the key (empty string, 0). In the order of
  the sort it comes before every node whose key is greater than its own, and at the step
  at which it is placed no ready node has a smaller key: a ready task with a smaller key
  (no group label and a positive priority) is placed before it.
\<close>

theorem root_placement:
  assumes "build_dependencies ops cached tgts = Some deps"
    and "schedule_graph deps tgts = (di, nv, g)"
    and "lexicographical_topological_sort g (compare_key ops nv) = Inr order"
  shows "compare_key ops nv di = ('''', 0)
       \<and> (\<forall>j < length order. compare_key ops nv di < compare_key ops nv (order ! j)
             \<longrightarrow> di \<in> set (take j order))
       \<and> (\<forall>j < length order. order ! j = di
             \<longrightarrow> (\<forall>m. ready g (take j order) m
                    \<longrightarrow> compare_key ops nv di \<le> compare_key ops nv m))"
proof (intro conjI allI impI)
  note sp = schedule_graph_spec[OF assms(2)]
  have "nv ! di = DUMMY_TASK_VALUE" unfolding sp(3) using sp(2) by (rule nth_index_of)
  then show "compare_key ops nv di = ('''', 0)" by (simp add: compare_key_def)
next
  fix j assume j: "j < length order"
    and gt: "compare_key ops nv di < compare_key ops nv (order ! j)"
  note sp = schedule_graph_spec[OF assms(2)]
  note o = lts_sound[OF sp(5) assms(3)]
  from j have "order ! j \<in> set order" by (rule nth_mem)
  then have "order ! j \<in> set (nodes g)" unfolding o(2) .
  then have ne: "set (nodes g) \<noteq> {}" by auto
  note d = dummy_ready[OF assms(1,2) ne]
  show "di \<in> set (take j order)"
  proof (rule ccontr)
    assume "di \<notin> set (take j order)"
    with d(2,3) have "ready g (take j order) di" by (simp add: ready_def)
    from sort_least_ready(2)[OF assms(2,3) j this] gt show False by simp
  qed
next
  fix j m assume j: "j < length order" and dj: "order ! j = di"
    and r: "ready g (take j order) m"
  from sort_least_ready(2)[OF assms(2,3) j r]
  show "compare_key ops nv di \<le> compare_key ops nv m" unfolding dj .
qed

theorem root_placement_witness:
  "build_dependencies low_ops None [TaskZ] = Some hint_deps
   \<and> schedule_graph hint_deps [TaskZ] = (3, hint_nv, hint_g)
   \<and> lexicographical_topological_sort hint_g (compare_key low_ops hint_nv) = Inr [2, 3, 0, 1]
   \<and> compare_key low_ops hint_nv 3 = ('''', 0)
   \<and> compare_key low_ops hint_nv ([2, 3, 0, 1] ! 2) = ('''', 1)
   \<and> 3 \<in> set (take 2 [2, 3, 0, 1 :: nat])"
proof -
  note t = root_placement[OF low_build hint_graph low_sort]
  note t1 = t[THEN conjunct1]
  note t2 = t[THEN conjunct2, THEN conjunct1, rule_format, of 2]
  have l: "2 < length [2, 3, 0, 1 :: nat]" by simp
  have k: "compare_key low_ops hint_nv ([2, 3, 0, 1] ! 2) = ('''', 1)"
    by (simp add: compare_key_def hint_nv_def low_ops_def demo_ops_def)
  have lt: "compare_key low_ops hint_nv 3 < compare_key low_ops hint_nv ([2, 3, 0, 1] ! 2)"
    unfolding k t1 by simp
  show ?thesis
    apply (rule conjI[OF low_build])
    apply (rule conjI[OF hint_graph])
    apply (rule conjI[OF low_sort])
    apply (rule conjI[OF t1])
    apply (rule conjI[OF k])
    apply (rule t2[OF l lt])
    done
qed

section \<open>The last-use indices\<close>

lemma fold_assign_absent:
  "fold (assign_absent idx) ks m k =
     (case m k of Some v \<Rightarrow> Some v | None \<Rightarrow> if k \<in> set ks then Some idx else None)"
proof (induction ks arbitrary: m)
  case Nil
  then show ?case by (simp split: option.splits)
next
  case (Cons a ks)
  show ?case
    unfolding fold_simps Cons.IH
    by (auto simp: assign_absent_def split: option.splits)
qed

lemma last_use_step_apply:
  "last_use_step deps (idx, t) m k =
     (case m k of Some v \<Rightarrow> Some v
      | None \<Rightarrow> if k \<in> insert t (set (case map_of deps t of None \<Rightarrow> [] | Some ds \<Rightarrow> ds))
                then Some idx else None)"
  unfolding last_use_step_def fst_conv snd_conv
  by (simp add: assign_absent_def fold_assign_absent split: option.splits)

lemma enumerate_snoc: "enumerate k (xs @ [x]) = enumerate k xs @ [(k + length xs, x)]"
  by (simp add: enumerate_append_eq)

lemma uses_at_append: "i < length xs \<Longrightarrow> uses_at deps (xs @ ys) i = uses_at deps xs i"
  by (simp add: uses_at_def nth_append)

lemma uses_at_last: "uses_at deps (xs @ [x]) (length xs)
    = insert x (set (case map_of deps x of None \<Rightarrow> [] | Some ds \<Rightarrow> ds))"
  unfolding uses_at_def nth_append_length ..

lemma first_pass_some:
  fixes m :: "'t \<rightharpoonup> nat"
  shows "m k = Some v \<Longrightarrow> fold (last_use_step deps) (rev (enumerate 0 xs)) m k = Some v"
proof (induction xs arbitrary: m rule: rev_induct)
  case Nil
  then show ?case by simp
next
  case (snoc x xs)
  have "last_use_step deps (length xs, x) m k = Some v"
    unfolding last_use_step_apply using snoc.prems by simp
  from snoc.IH[of "last_use_step deps (length xs, x) m", OF this] show ?case
    by (simp add: enumerate_snoc)
qed

lemma first_pass_none:
  fixes m :: "'t \<rightharpoonup> nat"
  assumes "m k = None"
  shows "(fold (last_use_step deps) (rev (enumerate 0 xs)) m k = None
             \<and> (\<forall>i < length xs. k \<notin> uses_at deps xs i))
        \<or> (\<exists>i < length xs. fold (last_use_step deps) (rev (enumerate 0 xs)) m k = Some i
             \<and> k \<in> uses_at deps xs i \<and> (\<forall>j < length xs. k \<in> uses_at deps xs j \<longrightarrow> j \<le> i))"
  using assms
proof (induction xs arbitrary: m rule: rev_induct)
  case Nil
  then show ?case by simp
next
  case (snoc x xs)
  let ?n = "length xs"
  let ?U = "insert x (set (case map_of deps x of None \<Rightarrow> [] | Some ds \<Rightarrow> ds))"
  let ?m' = "last_use_step deps (?n, x) m"
  let ?r = "fold (last_use_step deps) (rev (enumerate 0 xs)) ?m'"
  have r: "fold (last_use_step deps) (rev (enumerate 0 (xs @ [x]))) m = ?r"
    by (simp add: enumerate_snoc)
  have lt: "\<And>P. (\<forall>j < length (xs @ [x]). P j) = ((\<forall>j < ?n. P j) \<and> P ?n)"
    by (auto simp: less_Suc_eq)
  show ?case
  proof (cases "k \<in> ?U")
    case True
    have "?m' k = Some ?n" unfolding last_use_step_apply using snoc.prems True by simp
    then have rk: "?r k = Some ?n" by (rule first_pass_some[of ?m'])
    have a: "?n < length (xs @ [x])" by simp
    have b: "k \<in> uses_at deps (xs @ [x]) ?n" using True by (simp add: uses_at_last)
    have c: "\<forall>j < length (xs @ [x]). k \<in> uses_at deps (xs @ [x]) j \<longrightarrow> j \<le> ?n"
      by simp
    show ?thesis unfolding r
      by (rule disjI2, rule exI[of _ ?n], intro conjI) (rule a rk b c)+
  next
    case False
    have mk: "?m' k = None" unfolding last_use_step_apply using snoc.prems False by simp
    from False have nl: "k \<notin> uses_at deps (xs @ [x]) ?n" by (simp add: uses_at_last)
    from snoc.IH[of ?m', OF mk] show ?thesis
    proof (elim disjE conjE exE)
      assume n1: "?r k = None" and n2: "\<forall>i < ?n. k \<notin> uses_at deps xs i"
      have "\<forall>i < length (xs @ [x]). k \<notin> uses_at deps (xs @ [x]) i"
        unfolding lt using n2 nl by (simp add: uses_at_append)
      then show ?thesis unfolding r using n1 by (intro disjI1 conjI)
    next
      fix i assume s1: "i < ?n" and s2: "?r k = Some i" and s3: "k \<in> uses_at deps xs i"
        and s4: "\<forall>j < ?n. k \<in> uses_at deps xs j \<longrightarrow> j \<le> i"
      have a: "i < length (xs @ [x])" using s1 by simp
      have b: "k \<in> uses_at deps (xs @ [x]) i" using s1 s3 by (simp add: uses_at_append)
      have c: "\<forall>j < length (xs @ [x]). k \<in> uses_at deps (xs @ [x]) j \<longrightarrow> j \<le> i"
        unfolding lt using s4 nl by (simp add: uses_at_append)
      show ?thesis unfolding r
        by (rule disjI2, rule exI[of _ i], intro conjI) (rule a s2 b c)+
    qed
  qed
qed

lemma last_use_index_cases:
  fixes ex :: "('t, 'a) executor"
  defines "n \<equiv> length (schedule ex)"
  defines "U \<equiv> uses_at (dependencies ex) (schedule ex)"
  shows "(\<exists>i < n. last_use_index ex k = Some i \<and> k \<in> U i \<and> (\<forall>j < n. k \<in> U j \<longrightarrow> j \<le> i))
       \<or> ((\<forall>i < n. k \<notin> U i) \<and> k \<in> fst ` set (or_empty (cached_values ex))
            \<and> last_use_index ex k = Some (n + 1))
       \<or> ((\<forall>i < n. k \<notin> U i) \<and> k \<notin> fst ` set (or_empty (cached_values ex))
            \<and> last_use_index ex k = None)"
proof -
  let ?lu1 = "fold (last_use_step (dependencies ex)) (rev (enumerate 0 (schedule ex))) Map.empty"
  have lu: "last_use_index ex k =
      (case ?lu1 k of Some v \<Rightarrow> Some v
       | None \<Rightarrow> if k \<in> fst ` set (or_empty (cached_values ex)) then Some (n + 1) else None)"
    unfolding last_use_index_def n_def fold_assign_absent by simp
  have "(?lu1 k = None
             \<and> (\<forall>i < length (schedule ex). k \<notin> uses_at (dependencies ex) (schedule ex) i))
        \<or> (\<exists>i < length (schedule ex). ?lu1 k = Some i
             \<and> k \<in> uses_at (dependencies ex) (schedule ex) i
             \<and> (\<forall>j < length (schedule ex).
                   k \<in> uses_at (dependencies ex) (schedule ex) j \<longrightarrow> j \<le> i))"
    by (rule first_pass_none[of Map.empty]) simp
  then show ?thesis
  proof (elim disjE conjE exE)
    assume n1: "?lu1 k = None" and n2: "\<forall>i < length (schedule ex). k \<notin> uses_at (dependencies ex) (schedule ex) i"
    show ?thesis
    proof (cases "k \<in> fst ` set (or_empty (cached_values ex))")
      case True
      have "last_use_index ex k = Some (n + 1)" unfolding lu n1 using True by simp
      with n2 True show ?thesis unfolding n_def U_def by blast
    next
      case False
      have "last_use_index ex k = None" unfolding lu n1 using False by simp
      with n2 False show ?thesis unfolding n_def U_def by blast
    qed
  next
    fix i assume s1: "i < length (schedule ex)" and s2: "?lu1 k = Some i"
      and s3: "k \<in> uses_at (dependencies ex) (schedule ex) i"
      and s4: "\<forall>j < length (schedule ex). k \<in> uses_at (dependencies ex) (schedule ex) j \<longrightarrow> j \<le> i"
    have "last_use_index ex k = Some i" unfolding lu s2 by simp
    with s1 s3 s4 show ?thesis unfolding n_def U_def by blast
  qed
qed

section \<open>One step of the run\<close>

lemma fold_delete_keys: "fst ` set (fold AList.delete ks d) = fst ` set d - set ks"
proof (induction ks arbitrary: d)
  case Nil
  then show ?case by simp
next
  case (Cons k ks)
  have "fst ` set (AList.delete k d) = fst ` set d - {k}"
    unfolding AList.delete_eq by force
  then show ?case unfolding fold_simps Cons.IH by auto
qed

lemma fold_delete_distinct:
  "distinct (map fst d) \<Longrightarrow> distinct (map fst (fold AList.delete ks d))"
proof (induction ks arbitrary: d)
  case Nil
  then show ?case by simp
next
  case (Cons k ks)
  from Cons.prems have "distinct (map fst (AList.delete k d))" by (rule distinct_delete)
  then show ?case unfolding fold_simps by (rule Cons.IH)
qed

lemma fold_delete_map_of:
  "map_of (fold AList.delete ks d) k = (if k \<in> set ks then None else map_of d k)"
proof (induction ks arbitrary: d)
  case Nil
  then show ?case by simp
next
  case (Cons a ks)
  show ?case unfolding fold_simps Cons.IH by (simp add: delete_conv')
qed

lemma dict_update_keys: "fst ` set (dict_update d other) = fst ` set d \<union> fst ` set other"
  unfolding dict_update_def
proof (induction other arbitrary: d)
  case Nil
  then show ?case by simp
next
  case (Cons kv other)
  show ?case unfolding foldl_Cons Cons.IH dom_update by auto
qed

lemma dict_update_distinct:
  "distinct (map fst d) \<Longrightarrow> distinct (map fst (dict_update d other))"
  unfolding dict_update_def
proof (induction other arbitrary: d)
  case Nil
  then show ?case by simp
next
  case (Cons kv other)
  from Cons.prems have "distinct (map fst (AList.update (fst kv) (snd kv) d))"
    by (rule distinct_update)
  then show ?case unfolding foldl_Cons by (rule Cons.IH)
qed

lemma expired_keys_ok:
  assumes "\<forall>k \<in> set ks. last_use k \<noteq> None"
  shows "expired_keys last_use idx ks = Inr (filter (\<lambda>k. the (last_use k) \<le> idx) ks)"
  using assms by (induction ks) auto

lemma expired_keys_Inr:
  assumes "expired_keys last_use idx ks = Inr expired"
  shows "set expired = {k \<in> set ks. \<exists>l. last_use k = Some l \<and> l \<le> idx}"
    and "\<forall>k \<in> set ks. last_use k \<noteq> None"
  using assms
proof (induction ks arbitrary: expired)
  case Nil
  { case 1 then show ?case by simp }
  { case 2 then show ?case by simp }
next
  case (Cons k ks)
  { case 1
    from 1 obtain l e where l: "last_use k = Some l" and e: "expired_keys last_use idx ks = Inr e"
      and x: "expired = (if idx \<ge> l then k # e else e)"
      by (auto split: option.splits sum.splits)
    from Cons.IH(1)[OF e] show ?case unfolding x using l by auto }
  { case 2
    from 2 obtain l e where l: "last_use k = Some l" and e: "expired_keys last_use idx ks = Inr e"
      by (auto split: option.splits sum.splits)
    from Cons.IH(2)[OF e] l show ?case by simp }
qed

lemma expired_keys_error: "expired_keys last_use idx ks = Inl e \<Longrightarrow> e = KeyError"
  by (induction ks arbitrary: e) (auto split: option.splits sum.splits if_splits)

lemma resolve_arguments_ok:
  assumes "\<forall>d \<in> snd ` set items. map_of values d \<noteq> None"
  shows "\<exists>args. resolve_arguments ex um items values acc = Inr args"
  using assms
proof (induction items arbitrary: acc)
  case Nil
  then show ?case by simp
next
  case (Cons it items)
  obtain name d where it: "it = (name, d)" by (cases it)
  from Cons.prems obtain v where v: "map_of values d = Some v" by (auto simp: it)
  from Cons.prems have "\<forall>d \<in> snd ` set items. map_of values d \<noteq> None" by simp
  from Cons.IH[OF this] show ?case unfolding it by (simp add: v)
qed

lemma resolve_arguments_missing:
  assumes "\<exists>d \<in> snd ` set items. map_of values d = None"
  shows "resolve_arguments ex um items values acc = Inl KeyError"
  using assms
proof (induction items arbitrary: acc)
  case Nil
  then show ?case by simp
next
  case (Cons it items)
  obtain name d where it: "it = (name, d)" by (cases it)
  show ?case
  proof (cases "map_of values d")
    case None
    then show ?thesis unfolding it by simp
  next
    case (Some v)
    with Cons.prems have "\<exists>d \<in> snd ` set items. map_of values d = None" by (auto simp: it)
    from Cons.IH[OF this] show ?thesis unfolding it by (simp add: Some)
  qed
qed

lemma resolve_arguments_Inr:
  assumes "resolve_arguments ex um items values acc = Inr args"
  shows "\<forall>d \<in> snd ` set items. map_of values d \<noteq> None"
proof (rule ccontr)
  assume "\<not> (\<forall>d \<in> snd ` set items. map_of values d \<noteq> None)"
  then have "\<exists>d \<in> snd ` set items. map_of values d = None" by simp
  from resolve_arguments_missing[OF this, of ex um acc] assms show False by simp
qed

lemma run_step_Inr:
  assumes "run_step ops ex lu st (i, t) = Inr st'"
  shows "fst ` set (vals st') = {k \<in> insert t (fst ` set (vals st)). \<exists>l. lu k = Some l \<and> i < l}"
    and "distinct (map fst (vals st)) \<Longrightarrow> distinct (map fst (vals st'))"
    and "executed st' = executed st @ [t]"
    and "map fst (yielded st') = map fst (yielded st) @ (if t \<in> set (targets ex) then [t] else [])"
    and "caller_cached st' = caller_cached st"
    and "\<forall>d \<in> snd ` set (arguments ops t). d \<in> fst ` set (vals st)"
    and "\<forall>k \<in> insert t (fst ` set (vals st)). lu k \<noteq> None"
proof -
  from assms obtain args where
    ra: "resolve_arguments ex (uses_accelerator ops t) (arguments ops t) (vals st) [] = Inr args"
    by (auto simp: run_step_def split: sum.splits)
  from assms ra obtain res where ex: "execute ops t args = Some res"
    by (auto simp: run_step_def split: option.splits)
  let ?v = "move_tensors res (storage_device ex) None"
  let ?u = "AList.update t ?v (vals st)"
  from assms ra ex obtain expired where
    ek: "expired_keys lu i (map fst ?u) = Inr expired"
    by (auto simp: run_step_def split: sum.splits)
  from assms ra ex ek have st': "st' = \<lparr> vals = fold AList.delete expired ?u,
      yielded = (if t \<in> set (targets ex) then yielded st @ [(t, ?v)] else yielded st),
      executed = executed st @ [t], caller_cached = caller_cached st \<rparr>"
    by (auto simp: run_step_def)
  have ku: "set (map fst ?u) = insert t (fst ` set (vals st))"
    by (simp add: dom_update)
  note e = expired_keys_Inr[OF ek, unfolded ku]
  show "\<forall>k \<in> insert t (fst ` set (vals st)). lu k \<noteq> None" by (rule e(2))
  have "fst ` set (vals st') = insert t (fst ` set (vals st)) - set expired"
    unfolding st' by (simp add: fold_delete_keys dom_update)
  also have "\<dots> = {k \<in> insert t (fst ` set (vals st)). \<exists>l. lu k = Some l \<and> i < l}"
    unfolding e(1) using e(2) by (auto simp: not_le)
  finally show "fst ` set (vals st')
      = {k \<in> insert t (fst ` set (vals st)). \<exists>l. lu k = Some l \<and> i < l}" .
  show "distinct (map fst (vals st'))" if "distinct (map fst (vals st))"
    unfolding st' using that by (simp add: fold_delete_distinct distinct_update)
  show "executed st' = executed st @ [t]" unfolding st' by simp
  show "map fst (yielded st') = map fst (yielded st) @ (if t \<in> set (targets ex) then [t] else [])"
    unfolding st' by simp
  show "caller_cached st' = caller_cached st" unfolding st' by simp
  from resolve_arguments_Inr[OF ra]
  show "\<forall>d \<in> snd ` set (arguments ops t). d \<in> fst ` set (vals st)"
    by (simp add: map_of_eq_None_iff)
qed

lemma run_step_error:
  assumes "\<forall>d \<in> snd ` set (arguments ops t). d \<in> fst ` set (vals st)"
    and "\<forall>k \<in> insert t (fst ` set (vals st)). lu k \<noteq> None"
  shows "run_step ops ex lu st (i, t) \<noteq> Inl KeyError"
    and "run_step ops ex lu st (i, t) \<noteq> Inl RuntimeError"
    and "run_step ops ex lu st (i, t) \<noteq> Inl NetworkXUnfeasible"
proof -
  from assms(1) have "\<forall>d \<in> snd ` set (arguments ops t). map_of (vals st) d \<noteq> None"
    by (simp add: map_of_eq_None_iff)
  from resolve_arguments_ok[OF this, of ex "uses_accelerator ops t" "[]"] obtain args where
    ra: "resolve_arguments ex (uses_accelerator ops t) (arguments ops t) (vals st) [] = Inr args"
    by blast
  have r: "run_step ops ex lu st (i, t) = Inl TaskFailed \<or> (\<exists>s. run_step ops ex lu st (i, t) = Inr s)"
  proof (cases "execute ops t args")
    case None
    then show ?thesis by (simp add: run_step_def ra)
  next
    case (Some res)
    let ?u = "AList.update t (move_tensors res (storage_device ex) None) (vals st)"
    have "\<forall>k \<in> set (map fst ?u). lu k \<noteq> None" using assms(2) by (simp add: dom_update)
    from expired_keys_ok[OF this, of i] show ?thesis by (simp add: run_step_def ra Some)
  qed
  from r show "run_step ops ex lu st (i, t) \<noteq> Inl KeyError" by auto
  from r show "run_step ops ex lu st (i, t) \<noteq> Inl RuntimeError" by auto
  from r show "run_step ops ex lu st (i, t) \<noteq> Inl NetworkXUnfeasible" by auto
qed

lemma run_step_missing:
  assumes "\<exists>d \<in> snd ` set (arguments ops t). d \<notin> fst ` set (vals st)"
  shows "run_step ops ex lu st (i, t) = Inl KeyError"
proof -
  from assms have "\<exists>d \<in> snd ` set (arguments ops t). map_of (vals st) d = None"
    by (simp add: map_of_eq_None_iff)
  from resolve_arguments_missing[OF this] show ?thesis by (simp add: run_step_def)
qed

lemma run_loop_snoc:
  "run_loop ops ex lu st (xs @ [x]) =
     (case run_loop ops ex lu st xs of Inl e \<Rightarrow> Inl e | Inr st' \<Rightarrow> run_step ops ex lu st' x)"
  by (induction xs arbitrary: st) (auto split: sum.splits)

lemma run_steps_0: "run_steps ops ex 0 = Inr (initial_state ex)"
  by (simp add: run_steps_def)

lemma run_steps_Suc:
  assumes "n < length (schedule ex)"
  shows "run_steps ops ex (Suc n) =
     (case run_steps ops ex n of
        Inl e \<Rightarrow> Inl e
      | Inr st \<Rightarrow> run_step ops ex (last_use_index ex) st (n, schedule ex ! n))"
proof -
  from assms have "take (Suc n) (enumerate 0 (schedule ex))
      = take n (enumerate 0 (schedule ex)) @ [(n, schedule ex ! n)]"
    by (simp add: take_Suc_conv_app_nth nth_enumerate_eq)
  then show ?thesis unfolding run_steps_def by (simp add: run_loop_snoc)
qed

lemma cached_keys_have_last_use:
  assumes "k \<in> fst ` set (or_empty (cached_values ex))"
  shows "\<exists>l. last_use_index ex k = Some l"
  using last_use_index_cases[where k = k and ex = ex] assms by auto

lemma live_keys_0: "live_keys ex 0 = fst ` set (or_empty (cached_values ex))"
  unfolding live_keys_def using cached_keys_have_last_use[of _ ex] by auto

lemma live_keys_Suc:
  assumes "n < length (schedule ex)"
  shows "{k \<in> insert (schedule ex ! n) (live_keys ex n).
            \<exists>l. last_use_index ex k = Some l \<and> n < l} = live_keys ex (Suc n)"
proof -
  have t: "set (take (Suc n) (schedule ex)) = insert (schedule ex ! n) (set (take n (schedule ex)))"
    using assms by (simp add: take_Suc_conv_app_nth)
  show ?thesis unfolding live_keys_def t by (auto simp: Suc_le_eq)
qed

lemma run_steps_inv:
  assumes "run_steps ops ex n = Inr st" and "n \<le> length (schedule ex)"
  shows "fst ` set (vals st) = live_keys ex n" and "distinct (map fst (vals st))"
    and "executed st = take n (schedule ex)"
    and "map fst (yielded st) = filter (\<lambda>t. t \<in> set (targets ex)) (take n (schedule ex))"
    and "caller_cached st = cached_values ex"
proof -
  have "fst ` set (vals st) = live_keys ex n \<and> distinct (map fst (vals st))
      \<and> executed st = take n (schedule ex)
      \<and> map fst (yielded st) = filter (\<lambda>t. t \<in> set (targets ex)) (take n (schedule ex))
      \<and> caller_cached st = cached_values ex"
    using assms
  proof (induction n arbitrary: st)
    case 0
    then have st: "st = initial_state ex" by (simp add: run_steps_0)
    show ?case unfolding st live_keys_0
      by (simp add: initial_state_def dict_update_keys dict_update_distinct)
  next
    case (Suc n)
    from Suc.prems(2) have n: "n < length (schedule ex)" "n \<le> length (schedule ex)" by simp_all
    from Suc.prems(1) obtain s where s: "run_steps ops ex n = Inr s"
      and step: "run_step ops ex (last_use_index ex) s (n, schedule ex ! n) = Inr st"
      unfolding run_steps_Suc[OF n(1)] by (auto split: sum.splits)
    note ih = Suc.IH[OF s n(2)]
    note r = run_step_Inr[OF step]
    have t: "take (Suc n) (schedule ex) = take n (schedule ex) @ [schedule ex ! n]"
      using n(1) by (simp add: take_Suc_conv_app_nth)
    have a: "fst ` set (vals st) = live_keys ex (Suc n)"
      unfolding r(1) using ih live_keys_Suc[OF n(1)] by simp
    have b: "distinct (map fst (vals st))" using r(2) ih by simp
    have c: "executed st = take (Suc n) (schedule ex)" unfolding r(3) t using ih by simp
    have d: "map fst (yielded st)
        = filter (\<lambda>t. t \<in> set (targets ex)) (take (Suc n) (schedule ex))"
      unfolding r(4) t using ih by simp
    have e: "caller_cached st = cached_values ex" unfolding r(5) using ih by simp
    from a b c d e show ?case by simp
  qed
  then show "fst ` set (vals st) = live_keys ex n" and "distinct (map fst (vals st))"
    and "executed st = take n (schedule ex)"
    and "map fst (yielded st) = filter (\<lambda>t. t \<in> set (targets ex)) (take n (schedule ex))"
    and "caller_cached st = cached_values ex" by simp_all
qed

section \<open>Executors built by the constructor\<close>

lemma init_facts:
  assumes "Executor_init ops tgts md sd cached = Some (Inr ex)"
  shows "cached_values ex = cached" and "targets ex = tgts"
    and "make_schedule ops cached tgts = Some (Inr (schedule ex, dependencies ex))"
proof -
  from assms obtain sched deps where m: "make_schedule ops cached tgts = Some (Inr (sched, deps))"
    and e: "ex = \<lparr> cached_values = cached, targets = tgts, math_device = md,
               storage_device = sd, schedule = sched, dependencies = deps \<rparr>"
    by (auto simp: Executor_init_def split: option.splits sum.splits)
  show "cached_values ex = cached" and "targets ex = tgts" unfolding e by simp_all
  show "make_schedule ops cached tgts = Some (Inr (schedule ex, dependencies ex))"
    unfolding e using m by simp
qed

lemma init_scheduled:
  assumes init: "Executor_init ops tgts md sd cached = Some (Inr ex)"
    and i: "i < length (schedule ex)"
  shows "schedule ex ! i \<in> reachable ops cached tgts"
    and "schedule ex ! i \<notin> fst ` set (or_empty cached)"
    and "uses_at (dependencies ex) (schedule ex) i
          = insert (schedule ex ! i) (snd ` set (arguments ops (schedule ex ! i)))"
proof -
  note f = init_facts[OF init]
  note s = make_schedule_sound[OF f(3)]
  let ?t = "schedule ex ! i"
  from i have "?t \<in> set (schedule ex)" by (rule nth_mem)
  then have "?t \<in> {t \<in> reachable ops cached tgts. \<not> dict_in t (or_empty cached)}"
    unfolding s(4) .
  then show r: "?t \<in> reachable ops cached tgts"
    and nc: "?t \<notin> fst ` set (or_empty cached)" by (simp_all add: dict_in_def)
  from s(2) have k: "fst ` set (dependencies ex) = reachable ops cached tgts"
    and d: "distinct (map fst (dependencies ex))"
    and v: "\<And>k ds. (k, ds) \<in> set (dependencies ex) \<Longrightarrow> set ds = task_deps ops cached k"
    unfolding collected_def by blast+
  from r k obtain ds where ds: "(?t, ds) \<in> set (dependencies ex)" by force
  from d ds have m: "map_of (dependencies ex) ?t = Some ds" by (rule map_of_is_SomeI)
  from v[OF ds] nc have "set ds = snd ` set (arguments ops ?t)"
    by (simp add: task_deps_def dict_in_def)
  then show "uses_at (dependencies ex) (schedule ex) i
          = insert ?t (snd ` set (arguments ops ?t))"
    by (simp add: uses_at_def m)
qed

lemma init_dep_available:
  assumes init: "Executor_init ops tgts md sd cached = Some (Inr ex)"
    and j: "j < length (schedule ex)"
    and k: "k \<in> snd ` set (arguments ops (schedule ex ! j))"
  shows "k \<in> fst ` set (or_empty cached) \<or> k \<in> set (take j (schedule ex))"
proof -
  note f = init_facts[OF init]
  note s = make_schedule_sound[OF f(3)]
  from s(5)[unfolded deps_first_def, rule_format, OF j k] show ?thesis
    by (auto simp: dict_in_def)
qed

lemma init_consumer_later:
  assumes init: "Executor_init ops tgts md sd cached = Some (Inr ex)"
    and j: "j < length (schedule ex)"
    and k: "schedule ex ! i \<in> snd ` set (arguments ops (schedule ex ! j))"
    and i: "i < length (schedule ex)"
  shows "i < j"
proof -
  note f = init_facts[OF init]
  note s = make_schedule_sound[OF f(3)]
  from init_dep_available[OF init j k] init_scheduled(2)[OF init i]
  have "schedule ex ! i \<in> set (take j (schedule ex))" by simp
  then obtain i' where i': "i' < j" "schedule ex ! i' = schedule ex ! i"
    using j by (auto simp: in_set_conv_nth)
  with s(3) i j have "i' = i" by (simp add: nth_eq_iff_index_eq)
  with i'(1) show ?thesis by simp
qed

lemma init_last_use_consumed:
  assumes init: "Executor_init ops tgts md sd cached = Some (Inr ex)"
    and j: "j < length (schedule ex)"
    and k: "k \<in> snd ` set (arguments ops (schedule ex ! j))"
  shows "\<exists>l < length (schedule ex). last_use_index ex k = Some l
          \<and> k \<in> snd ` set (arguments ops (schedule ex ! l))
          \<and> (\<forall>j' < length (schedule ex).
                k \<in> snd ` set (arguments ops (schedule ex ! j')) \<longrightarrow> j' \<le> l)"
proof -
  let ?n = "length (schedule ex)"
  let ?U = "uses_at (dependencies ex) (schedule ex)"
  let ?A = "\<lambda>j. snd ` set (arguments ops (schedule ex ! j))"
  have U: "?U i = insert (schedule ex ! i) (?A i)" if "i < ?n" for i
    using init that by (rule init_scheduled(3))
  have kj: "k \<in> ?U j" unfolding U[OF j] using k by simp
  from last_use_index_cases[where k = k and ex = ex] kj j
  obtain l where l: "l < ?n" "last_use_index ex k = Some l" "k \<in> ?U l"
    "\<forall>j' < ?n. k \<in> ?U j' \<longrightarrow> j' \<le> l" by blast
  from l(4) j kj have jl: "j \<le> l" by blast
  have kA: "k \<in> ?A l"
  proof (rule ccontr)
    assume "k \<notin> ?A l"
    with l(3) have e: "k = schedule ex ! l" unfolding U[OF l(1)] by simp
    from init_consumer_later[OF init j k[unfolded e] l(1)] jl show False by simp
  qed
  have "\<forall>j' < ?n. k \<in> ?A j' \<longrightarrow> j' \<le> l"
  proof (intro allI impI)
    fix j' assume j': "j' < ?n" "k \<in> ?A j'"
    then have "k \<in> ?U j'" unfolding U[OF j'(1)] by simp
    with l(4) j'(1) show "j' \<le> l" by blast
  qed
  with l(1,2) kA show ?thesis by blast
qed



lemma init_deps_present:
  assumes init: "Executor_init ops tgts md sd cached = Some (Inr ex)"
    and n: "n < length (schedule ex)"
    and r: "run_steps ops ex n = Inr st"
  shows "\<forall>d \<in> snd ` set (arguments ops (schedule ex ! n)). d \<in> fst ` set (vals st)"
proof
  fix d assume d: "d \<in> snd ` set (arguments ops (schedule ex ! n))"
  note f = init_facts[OF init]
  from n have n': "n \<le> length (schedule ex)" by simp
  from init_last_use_consumed[OF init n d] obtain l where
    l: "last_use_index ex d = Some l" "n \<le> l" using n d by blast
  from init_dep_available[OF init n d] l
  have "d \<in> live_keys ex n" unfolding live_keys_def f(1) by blast
  then show "d \<in> fst ` set (vals st)" unfolding run_steps_inv(1)[OF r n'] .
qed

lemma init_no_KeyError:
  assumes init: "Executor_init ops tgts md sd cached = Some (Inr ex)"
    and n: "n \<le> length (schedule ex)"
  shows "run_steps ops ex n \<noteq> Inl KeyError"
  using n
proof (induction n)
  case 0
  then show ?case by (simp add: run_steps_0)
next
  case (Suc n)
  from Suc.prems have n: "n < length (schedule ex)" "n \<le> length (schedule ex)" by simp_all
  show ?case
  proof (cases "run_steps ops ex n")
    case (Inl e)
    with Suc.IH[OF n(2)] show ?thesis unfolding run_steps_Suc[OF n(1)] by simp
  next
    case (Inr st)
    note p = init_deps_present[OF init n(1) Inr]
    have q: "\<forall>k \<in> insert (schedule ex ! n) (fst ` set (vals st)). last_use_index ex k \<noteq> None"
    proof
      fix k assume "k \<in> insert (schedule ex ! n) (fst ` set (vals st))"
      then consider "k = schedule ex ! n" | "k \<in> live_keys ex n"
        unfolding run_steps_inv(1)[OF Inr n(2)] by blast
      then show "last_use_index ex k \<noteq> None"
      proof cases
        case 1
        have "k \<in> uses_at (dependencies ex) (schedule ex) n"
          unfolding init_scheduled(3)[OF init n(1)] 1 by simp
        with last_use_index_cases[where k = k and ex = ex] n(1) show ?thesis by auto
      next
        case 2
        then show ?thesis unfolding live_keys_def by auto
      qed
    qed
    from run_step_error(1)[OF p q] show ?thesis unfolding run_steps_Suc[OF n(1)] Inr by simp
  qed
qed

section \<open>The run of the scenarios\<close>

lemma chain_init: "Executor_init chain_ops [TaskD] cpu cpu None = Some (Inr chain_ex)"
  by code_simp

lemma fanout_init: "Executor_init fanout_ops [TaskB, TaskC] cpu cpu None = Some (Inr fanout_ex)"
  by code_simp

lemma cached_target_init:
  "Executor_init chain_ops [TaskA] cpu cpu (Some [(TaskA, Other 5)]) = Some (Inr cached_target_ex)"
  by code_simp


lemma chain_steps_1:
  "run_steps chain_ops chain_ex 1
     = Inr \<lparr> vals = [(TaskA, Other 1)], yielded = [], executed = [TaskA],
             caller_cached = None \<rparr>"
  by code_simp

lemma chain_steps_2:
  "run_steps chain_ops chain_ex 2
     = Inr \<lparr> vals = [(TaskB, Other 2)], yielded = [], executed = [TaskA, TaskB],
             caller_cached = None \<rparr>"
  by code_simp


lemma chain_stored:
  "stored_after chain_ops chain_ex 1 = Inr [TaskA]"
  "stored_after chain_ops chain_ex 2 = Inr [TaskB]"
  "stored_after chain_ops chain_ex 3 = Inr [TaskC]"
  "stored_after chain_ops chain_ex 4 = Inr []"
  by code_simp+

lemma fanout_stored:
  "stored_after fanout_ops fanout_ex 1 = Inr [TaskA]"
  "stored_after fanout_ops fanout_ex 2 = Inr [TaskA]"
  "stored_after fanout_ops fanout_ex 3 = Inr []"
  by code_simp+

lemma fanout_run:
  "run fanout_ops fanout_ex
     = Inr \<lparr> vals = [], yielded = [(TaskC, Other 2), (TaskB, Other 2)],
             executed = [TaskA, TaskC, TaskB], caller_cached = None \<rparr>"
  by code_simp

lemma cached_target_run:
  "run chain_ops cached_target_ex
     = Inr \<lparr> vals = [(TaskA, Other 5)], yielded = [], executed = [],
             caller_cached = Some [(TaskA, Other 5)] \<rparr>"
  by code_simp


lemma chain_last_use:
  "last_use_index chain_ex TaskA = Some 1"
  "last_use_index chain_ex TaskD = Some 3"
  by code_simp+

lemma fanout_last_use:
  "last_use_index fanout_ex TaskA = Some 2"
  "last_use_index fanout_ex TaskC = Some 1"
  by code_simp+

section \<open>Dependencies are present when a task executes\<close>

text \<open>
  C9. For an executor built by the constructor: when the task at position \<open>n\<close> of the
  schedule is about to execute, every declared dependency of it is a key of the value
  store, and no prefix of the run (nor the whole run) ends in a failed lookup. In any
  state, a dependency that is missing from the store makes the step fail with the lookup
  error at once, and the run ends there without executing the task or any later one.
\<close>

theorem dependencies_present_when_executed:
  assumes "Executor_init ops tgts md sd cached = Some (Inr ex)"
  shows "(\<forall>n st. n < length (schedule ex) \<longrightarrow> run_steps ops ex n = Inr st
            \<longrightarrow> (\<forall>d \<in> snd ` set (arguments ops (schedule ex ! n)). d \<in> fst ` set (vals st)))
       \<and> (\<forall>n. n \<le> length (schedule ex) \<longrightarrow> run_steps ops ex n \<noteq> Inl KeyError)
       \<and> run ops ex \<noteq> Inl KeyError
       \<and> (\<forall>lu st i t rest. (\<exists>d \<in> snd ` set (arguments ops t). d \<notin> fst ` set (vals st))
            \<longrightarrow> run_loop ops ex lu st ((i, t) # rest) = Inl KeyError)"
proof -
  have a: "\<forall>n st. n < length (schedule ex) \<longrightarrow> run_steps ops ex n = Inr st
            \<longrightarrow> (\<forall>d \<in> snd ` set (arguments ops (schedule ex ! n)). d \<in> fst ` set (vals st))"
    using init_deps_present[OF assms] by blast
  have b: "\<forall>n. n \<le> length (schedule ex) \<longrightarrow> run_steps ops ex n \<noteq> Inl KeyError"
    using init_no_KeyError[OF assms] by blast
  have c: "run ops ex \<noteq> Inl KeyError" unfolding run_def
    using assms order_refl by (rule init_no_KeyError)
  have d: "\<forall>lu st i t rest. (\<exists>d \<in> snd ` set (arguments ops t). d \<notin> fst ` set (vals st))
            \<longrightarrow> run_loop ops ex lu st ((i, t) # rest) = Inl KeyError"
    by (simp add: run_step_missing)
  show ?thesis
    apply (rule conjI[OF a])
    apply (rule conjI[OF b])
    apply (rule conjI[OF c])
    apply (rule d)
    done
qed

theorem dependencies_present_when_executed_witness:
  "Executor_init chain_ops [TaskD] cpu cpu None = Some (Inr chain_ex)
   \<and> run_steps chain_ops chain_ex 1
       = Inr \<lparr> vals = [(TaskA, Other 1)], yielded = [], executed = [TaskA],
               caller_cached = None \<rparr>
   \<and> TaskA \<in> snd ` set (arguments chain_ops (schedule chain_ex ! 1))
   \<and> TaskA \<in> fst ` set (vals \<lparr> vals = [(TaskA, Other 1)], yielded = [], executed = [TaskA],
                                caller_cached = (None :: (demo_task, int pyvalue) dict option) \<rparr>)
   \<and> run chain_ops chain_ex \<noteq> Inl KeyError"
proof -
  note t = dependencies_present_when_executed[OF chain_init]
  note t1 = t[THEN conjunct1, rule_format, of 1 _ TaskA]
  note t3 = t[THEN conjunct2, THEN conjunct2, THEN conjunct1]
  have l: "1 < length (schedule chain_ex)" by (simp add: chain_ex_def)
  have a: "TaskA \<in> snd ` set (arguments chain_ops (schedule chain_ex ! 1))"
    by (simp add: chain_ex_def chain_ops_def demo_ops_def)
  show ?thesis
    apply (rule conjI[OF chain_init])
    apply (rule conjI[OF chain_steps_1])
    apply (rule conjI[OF a])
    apply (rule conjI[OF t1[OF l chain_steps_1 a]])
    apply (rule t3)
    done
qed

section \<open>Eviction at the last use\<close>

text \<open>
  C2. For an executor built by the constructor: a task that some scheduled task consumes
  has as its last-use index the latest schedule index of a task consuming it; and for
  every key with last-use index \<open>l\<close>, the key is in the value store after \<open>n\<close> steps exactly
  when it has been stored (it is cached or was produced in the first \<open>n\<close> steps) and
  \<open>n \<le> l\<close>, so it is there up to the start of step \<open>l\<close> and gone immediately after step \<open>l\<close>.
  In the chain with target D the schedule is [A, B, C, D] and the store holds exactly A
  after A's step, exactly B after B's step and exactly C after C's step. In the fan-out
  with targets [B, C] the schedule is [A, C, B]; A is still stored after C's step and is
  gone after B's step.
\<close>

theorem eviction_at_last_use:
  assumes "Executor_init ops tgts md sd cached = Some (Inr ex)"
  shows "(\<forall>k j. j < length (schedule ex) \<longrightarrow> k \<in> snd ` set (arguments ops (schedule ex ! j))
            \<longrightarrow> (\<exists>l < length (schedule ex). last_use_index ex k = Some l
                   \<and> k \<in> snd ` set (arguments ops (schedule ex ! l))
                   \<and> (\<forall>j' < length (schedule ex).
                         k \<in> snd ` set (arguments ops (schedule ex ! j')) \<longrightarrow> j' \<le> l)))
       \<and> (\<forall>n st k l. n \<le> length (schedule ex) \<longrightarrow> run_steps ops ex n = Inr st
            \<longrightarrow> last_use_index ex k = Some l
            \<longrightarrow> (k \<in> fst ` set (vals st)
                  \<longleftrightarrow> (k \<in> fst ` set (or_empty cached) \<or> k \<in> set (take n (schedule ex)))
                       \<and> n \<le> l))
       \<and> (\<forall>n st k. n \<le> length (schedule ex) \<longrightarrow> run_steps ops ex n = Inr st
            \<longrightarrow> k \<in> fst ` set (vals st) \<longrightarrow> last_use_index ex k \<noteq> None)
       \<and> Executor_init chain_ops [TaskD] cpu cpu None = Some (Inr chain_ex)
       \<and> schedule chain_ex = [TaskA, TaskB, TaskC, TaskD]
       \<and> stored_after chain_ops chain_ex 1 = Inr [TaskA]
       \<and> stored_after chain_ops chain_ex 2 = Inr [TaskB]
       \<and> stored_after chain_ops chain_ex 3 = Inr [TaskC]
       \<and> Executor_init fanout_ops [TaskB, TaskC] cpu cpu None = Some (Inr fanout_ex)
       \<and> schedule fanout_ex = [TaskA, TaskC, TaskB]
       \<and> stored_after fanout_ops fanout_ex 1 = Inr [TaskA]
       \<and> stored_after fanout_ops fanout_ex 2 = Inr [TaskA]
       \<and> stored_after fanout_ops fanout_ex 3 = Inr []"
proof -
  note f = init_facts[OF assms]
  have a: "\<forall>k j. j < length (schedule ex) \<longrightarrow> k \<in> snd ` set (arguments ops (schedule ex ! j))
            \<longrightarrow> (\<exists>l < length (schedule ex). last_use_index ex k = Some l
                   \<and> k \<in> snd ` set (arguments ops (schedule ex ! l))
                   \<and> (\<forall>j' < length (schedule ex).
                         k \<in> snd ` set (arguments ops (schedule ex ! j')) \<longrightarrow> j' \<le> l))"
    using init_last_use_consumed[OF assms] by blast
  have b: "\<forall>n st k l. n \<le> length (schedule ex) \<longrightarrow> run_steps ops ex n = Inr st
            \<longrightarrow> last_use_index ex k = Some l
            \<longrightarrow> (k \<in> fst ` set (vals st)
                  \<longleftrightarrow> (k \<in> fst ` set (or_empty cached) \<or> k \<in> set (take n (schedule ex)))
                       \<and> n \<le> l)"
  proof (intro allI impI)
    fix n st k l
    assume n: "n \<le> length (schedule ex)" and r: "run_steps ops ex n = Inr st"
      and l: "last_use_index ex k = Some l"
    show "k \<in> fst ` set (vals st)
            \<longleftrightarrow> (k \<in> fst ` set (or_empty cached) \<or> k \<in> set (take n (schedule ex))) \<and> n \<le> l"
      unfolding run_steps_inv(1)[OF r n] live_keys_def f(1) using l by simp
  qed
  have c: "\<forall>n st k. n \<le> length (schedule ex) \<longrightarrow> run_steps ops ex n = Inr st
            \<longrightarrow> k \<in> fst ` set (vals st) \<longrightarrow> last_use_index ex k \<noteq> None"
  proof (intro allI impI)
    fix n st k
    assume n: "n \<le> length (schedule ex)" and r: "run_steps ops ex n = Inr st"
      and k: "k \<in> fst ` set (vals st)"
    from k show "last_use_index ex k \<noteq> None"
      unfolding run_steps_inv(1)[OF r n] live_keys_def by auto
  qed
  have cs: "schedule chain_ex = [TaskA, TaskB, TaskC, TaskD]" by (simp add: chain_ex_def)
  have fs: "schedule fanout_ex = [TaskA, TaskC, TaskB]" by (simp add: fanout_ex_def)
  show ?thesis
    apply (rule conjI[OF a])
    apply (rule conjI[OF b])
    apply (rule conjI[OF c])
    apply (rule conjI[OF chain_init])
    apply (rule conjI[OF cs])
    apply (rule conjI[OF chain_stored(1)])
    apply (rule conjI[OF chain_stored(2)])
    apply (rule conjI[OF chain_stored(3)])
    apply (rule conjI[OF fanout_init])
    apply (rule conjI[OF fs])
    apply (rule conjI[OF fanout_stored(1)])
    apply (rule conjI[OF fanout_stored(2)])
    apply (rule fanout_stored(3))
    done
qed

theorem eviction_at_last_use_witness:
  "Executor_init chain_ops [TaskD] cpu cpu None = Some (Inr chain_ex)
   \<and> run_steps chain_ops chain_ex 2
       = Inr \<lparr> vals = [(TaskB, Other 2)], yielded = [], executed = [TaskA, TaskB],
               caller_cached = None \<rparr>
   \<and> last_use_index chain_ex TaskA = Some 1
   \<and> TaskA \<in> set (take 2 (schedule chain_ex))
   \<and> TaskA \<notin> fst ` set (vals \<lparr> vals = [(TaskB, Other 2)], yielded = [],
                                executed = [TaskA, TaskB],
                                caller_cached = (None :: (demo_task, int pyvalue) dict option) \<rparr>)"
proof -
  note t = eviction_at_last_use[OF chain_init, THEN conjunct2, THEN conjunct1, rule_format,
      of 2 _ TaskA 1]
  have l: "2 \<le> length (schedule chain_ex)" by (simp add: chain_ex_def)
  have m: "TaskA \<in> set (take 2 (schedule chain_ex))" by (simp add: chain_ex_def)
  from t[OF l chain_steps_2 chain_last_use(1)]
  have n: "TaskA \<notin> fst ` set (vals \<lparr> vals = [(TaskB, Other 2)], yielded = [],
                                executed = [TaskA, TaskB],
                                caller_cached = (None :: (demo_task, int pyvalue) dict option) \<rparr>)"
    by simp
  show ?thesis
    apply (rule conjI[OF chain_init])
    apply (rule conjI[OF chain_steps_2])
    apply (rule conjI[OF chain_last_use(1)])
    apply (rule conjI[OF m])
    apply (rule n)
    done
qed

section \<open>Cached values during the run\<close>



section \<open>Tasks that no later task consumes\<close>





section \<open>The pairs that the run yields\<close>

text \<open>
  The target A of the chain is supplied in the cached values. Construction succeeds with
  the empty schedule, the run completes, and it yields no pair at all: the requested
  target A has no pair in the output.
\<close>

theorem pair_for_each_target_counterexample:
  "Executor_init chain_ops [TaskA] cpu cpu (Some [(TaskA, Other 5)])
     = Some (Inr cached_target_ex)
   \<and> TaskA \<in> set (targets cached_target_ex)
   \<and> schedule cached_target_ex = []
   \<and> run chain_ops cached_target_ex
       = Inr \<lparr> vals = [(TaskA, Other 5)], yielded = [], executed = [],
               caller_cached = Some [(TaskA, Other 5)] \<rparr>
   \<and> TaskA \<notin> fst ` set (yielded \<lparr> vals = [(TaskA, Other (5 :: int))], yielded = [],
                                   executed = [] :: demo_task list,
                                   caller_cached = Some [(TaskA, Other 5)] \<rparr>)"
proof -
  have a: "TaskA \<in> set (targets cached_target_ex)" by (simp add: cached_target_ex_def)
  have b: "schedule cached_target_ex = []" by (simp add: cached_target_ex_def)
  have c: "TaskA \<notin> fst ` set (yielded \<lparr> vals = [(TaskA, Other (5 :: int))], yielded = [],
                                   executed = [] :: demo_task list,
                                   caller_cached = Some [(TaskA, Other 5)] \<rparr>)"
    by simp
  show ?thesis
    apply (rule conjI[OF cached_target_init])
    apply (rule conjI[OF a])
    apply (rule conjI[OF b])
    apply (rule conjI[OF cached_target_run])
    apply (rule c)
    done
qed

text \<open>
  C4, as the code has it. For an executor built by the constructor: after any number of steps the
  tasks of the pairs yielded so far are the targets among the tasks executed so far, in
  schedule order; and when the run completes, the tasks of the yielded pairs are the
  targets in the schedule, in schedule order, each exactly once, and they are exactly the
  requested targets that are not in the cached-values mapping (a cached target has no
  pair).
\<close>

theorem one_pair_per_uncached_target:
  assumes "Executor_init ops tgts md sd cached = Some (Inr ex)"
  shows "(\<forall>n st. n \<le> length (schedule ex) \<longrightarrow> run_steps ops ex n = Inr st
            \<longrightarrow> map fst (yielded st) = filter (\<lambda>t. t \<in> set tgts) (take n (schedule ex)))
       \<and> (\<forall>st. run ops ex = Inr st
            \<longrightarrow> map fst (yielded st) = filter (\<lambda>t. t \<in> set tgts) (schedule ex)
              \<and> distinct (map fst (yielded st))
              \<and> set (map fst (yielded st))
                  = {t \<in> set tgts. t \<notin> fst ` set (or_empty cached)})"
proof -
  note f = init_facts[OF assms]
  note s = make_schedule_sound[OF f(3)]
  have a: "\<forall>n st. n \<le> length (schedule ex) \<longrightarrow> run_steps ops ex n = Inr st
            \<longrightarrow> map fst (yielded st) = filter (\<lambda>t. t \<in> set tgts) (take n (schedule ex))"
  proof (intro allI impI)
    fix n st assume n: "n \<le> length (schedule ex)" and r: "run_steps ops ex n = Inr st"
    from run_steps_inv(4)[OF r n]
    show "map fst (yielded st) = filter (\<lambda>t. t \<in> set tgts) (take n (schedule ex))"
      unfolding f(2) .
  qed
  have b: "\<forall>st. run ops ex = Inr st
            \<longrightarrow> map fst (yielded st) = filter (\<lambda>t. t \<in> set tgts) (schedule ex)
              \<and> distinct (map fst (yielded st))
              \<and> set (map fst (yielded st))
                  = {t \<in> set tgts. t \<notin> fst ` set (or_empty cached)}"
  proof (intro allI impI)
    fix st assume r: "run ops ex = Inr st"
    from r have r': "run_steps ops ex (length (schedule ex)) = Inr st" unfolding run_def .
    from a[rule_format, OF order_refl r']
    have y: "map fst (yielded st) = filter (\<lambda>t. t \<in> set tgts) (schedule ex)" by simp
    have d: "distinct (map fst (yielded st))" unfolding y using s(3) by simp
    have "set tgts \<subseteq> reachable ops cached tgts" by (auto intro: reachable.target)
    then have e: "set (map fst (yielded st))
                  = {t \<in> set tgts. t \<notin> fst ` set (or_empty cached)}"
      unfolding y set_filter s(4) by (auto simp: dict_in_def)
    from y d e show "map fst (yielded st) = filter (\<lambda>t. t \<in> set tgts) (schedule ex)
              \<and> distinct (map fst (yielded st))
              \<and> set (map fst (yielded st))
                  = {t \<in> set tgts. t \<notin> fst ` set (or_empty cached)}"
      by (intro conjI)
  qed
  show ?thesis
    apply (rule conjI[OF a])
    apply (rule b)
    done
qed

theorem one_pair_per_uncached_target_witness:
  "Executor_init fanout_ops [TaskB, TaskC] cpu cpu None = Some (Inr fanout_ex)
   \<and> run fanout_ops fanout_ex
       = Inr \<lparr> vals = [], yielded = [(TaskC, Other 2), (TaskB, Other 2)],
               executed = [TaskA, TaskC, TaskB], caller_cached = None \<rparr>
   \<and> map fst (yielded \<lparr> vals = [], yielded = [(TaskC, Other (2 :: int)), (TaskB, Other 2)],
                        executed = [TaskA, TaskC, TaskB],
                        caller_cached = (None :: (demo_task, int pyvalue) dict option) \<rparr>)
       = filter (\<lambda>t. t \<in> set [TaskB, TaskC]) (schedule fanout_ex)
   \<and> filter (\<lambda>t. t \<in> set [TaskB, TaskC]) (schedule fanout_ex) = [TaskC, TaskB]"
proof -
  note t = one_pair_per_uncached_target[OF fanout_init, THEN conjunct2, THEN spec, THEN mp,
      OF fanout_run, THEN conjunct1]
  have e: "filter (\<lambda>t. t \<in> set [TaskB, TaskC]) (schedule fanout_ex) = [TaskC, TaskB]"
    by (simp add: fanout_ex_def)
  show ?thesis
    apply (rule conjI[OF fanout_init])
    apply (rule conjI[OF fanout_run])
    apply (rule conjI[OF t])
    apply (rule e)
    done
qed

end
